theory Spec2Isabelle
  imports Complex_Main
begin

section \<open>Strings and characters\<close>

text \<open>
  A JavaScript string is modelled as a \<^typ>\<open>string\<close>; one \<^typ>\<open>char\<close> stands for one
  element produced by iterating the string. The three characters the reader tests for
  by value are named below.
\<close>

abbreviation LF :: char where "LF \<equiv> CHR 0x0A"
abbreviation CR :: char where "CR \<equiv> CHR 0x0D"
abbreviation NUL :: char where "NUL \<equiv> CHR 0x00"

text \<open>Decimal rendering of the line number inside a template string.\<close>

fun showNat :: "nat \<Rightarrow> string" where
  "showNat n =
     (if n < 10 then [''0123456789'' ! n]
      else showNat (n div 10) @ [''0123456789'' ! (n mod 10)])"

declare showNat.simps [simp del]

section \<open>iterator.ts: HasNextIterator\<close>

text \<open>
  The wrapped iterator is an array or string iterator; it is modelled by the list of
  the elements it has not produced yet. \<open>nextValues\<close> is the buffer of the class.
  An \<open>IteratorResult\<close> is an option: \<open>None\<close> is \<open>{value: undefined, done: true}\<close>.
\<close>

record 'a HasNextIterator =
  iterator :: "'a list"
  nextValues :: "'a list"

definition newHasNextIterator :: "'a list \<Rightarrow> 'a HasNextIterator" where
  "newHasNextIterator iterable = \<lparr>iterator = iterable, nextValues = []\<rparr>"

text \<open>\<open>iterator.next()\<close> of the underlying list iterator.\<close>

definition iterator_next :: "'a list \<Rightarrow> 'a option \<times> 'a list" where
  "iterator_next xs = (case xs of [] \<Rightarrow> (None, []) | x # rest \<Rightarrow> (Some x, rest))"

definition HasNextIterator_next :: "'a HasNextIterator \<Rightarrow> 'a option \<times> 'a HasNextIterator" where
  "HasNextIterator_next it =
     (case nextValues it of
        v # vs \<Rightarrow> (Some v, it\<lparr>nextValues := vs\<rparr>)
      | [] \<Rightarrow> (case iterator_next (iterator it) of
                 (res, rest) \<Rightarrow> (res, it\<lparr>iterator := rest\<rparr>)))"

definition HasNextIterator_hasNext :: "'a HasNextIterator \<Rightarrow> bool \<times> 'a HasNextIterator" where
  "HasNextIterator_hasNext it =
     (if nextValues it \<noteq> [] then (True, it)
      else (case HasNextIterator_next it of
              (Some v, it') \<Rightarrow> (True, it'\<lparr>nextValues := nextValues it' @ [v]\<rparr>)
            | (None, it') \<Rightarrow> (False, it')))"

text \<open>The elements a wrapper still has to deliver: the buffer, then the wrapped rest.\<close>

definition pending :: "'a HasNextIterator \<Rightarrow> 'a list" where
  "pending it = nextValues it @ iterator it"

text \<open>
  A client of the wrapper is a sequence of calls; each call is observed by its result.
\<close>

datatype call = CallHasNext | CallNext

datatype 'a observation = SawHasNext bool | SawNext "'a option"

fun calls :: "call list \<Rightarrow> 'a HasNextIterator \<Rightarrow> 'a observation list" where
  "calls [] it = []"
| "calls (CallHasNext # cs) it =
     (case HasNextIterator_hasNext it of (b, it') \<Rightarrow> SawHasNext b # calls cs it')"
| "calls (CallNext # cs) it =
     (case HasNextIterator_next it of (res, it') \<Rightarrow> SawNext res # calls cs it')"

text \<open>
  The contract in the specification's words: \<open>hasNext\<close> reports whether a value is
  left without consuming it, \<open>next\<close> hands out the values in order.
\<close>

fun lookahead_contract :: "call list \<Rightarrow> 'a list \<Rightarrow> 'a observation list" where
  "lookahead_contract [] xs = []"
| "lookahead_contract (CallHasNext # cs) xs = SawHasNext (xs \<noteq> []) # lookahead_contract cs xs"
| "lookahead_contract (CallNext # cs) xs =
     (case xs of [] \<Rightarrow> SawNext None # lookahead_contract cs []
      | x # rest \<Rightarrow> SawNext (Some x) # lookahead_contract cs rest)"

text \<open>The results of the \<open>next()\<close> calls among the observations, and their number.\<close>

fun nextResults :: "'a observation list \<Rightarrow> 'a option list" where
  "nextResults [] = []"
| "nextResults (SawHasNext b # obs) = nextResults obs"
| "nextResults (SawNext r # obs) = r # nextResults obs"

fun countNext :: "call list \<Rightarrow> nat" where
  "countNext [] = 0"
| "countNext (CallHasNext # cs) = countNext cs"
| "countNext (CallNext # cs) = Suc (countNext cs)"


section \<open>What a lookahead sequence still has to deliver\<close>

lemma pending_new [simp]: "pending (newHasNextIterator xs) = xs"
  by (simp add: pending_def newHasNextIterator_def)

lemma next_pending:
  "HasNextIterator_next it = (res, it') \<Longrightarrow>
     (case pending it of [] \<Rightarrow> res = None \<and> pending it' = []
      | x # rest \<Rightarrow> res = Some x \<and> pending it' = rest)"
  by (auto simp: HasNextIterator_next_def iterator_next_def pending_def
           split: list.splits)

lemma hasNext_pending:
  "HasNextIterator_hasNext it = (b, it') \<Longrightarrow> b = (pending it \<noteq> []) \<and> pending it' = pending it"
  by (auto simp: HasNextIterator_hasNext_def HasNextIterator_next_def iterator_next_def
        pending_def split: list.splits if_splits)

section \<open>dialect.ts\<close>

datatype Quoting = Quoting_MINIMAL | Quoting_ALL | Quoting_NON_NUMERIC | Quoting_NONE

text \<open>
  Modelled from the spec: the \<open>Dialect\<close> interface and the \<open>excel\<close> preset; the file
  \<open>dialect.ts\<close> that declares them is missing from the sources. The fields and the
  defaults are those of section 3 of the specification (and of the test
  "should have default dialect properties"). An unset \<open>quoteChar\<close> or \<open>escapeChar\<close>
  (\<open>undefined\<close>) is \<open>None\<close>.
\<close>

record Dialect =
  delimiter :: string
  quoteChar :: "string option"
  escapeChar :: "string option"
  doubleQuote :: bool
  skipInitialSpace :: bool
  lineTerminator :: string
  quoting :: Quoting
  strict :: bool

abbreviation DQUOTE :: char where "DQUOTE \<equiv> CHR 0x22"

definition excel :: Dialect where
  "excel = \<lparr>delimiter = '','', quoteChar = Some [DQUOTE], escapeChar = None,
     doubleQuote = True, skipInitialSpace = False, lineTerminator = [CR, LF],
     quoting = Quoting_MINIMAL, strict = False\<rparr>"

section \<open>reader.ts: the Reader class\<close>

text \<open>
  A field is a string or a number. The numbers are those of the platform: the type
  \<open>'n\<close> and the conversion \<open>Number :: string \<Rightarrow> 'n option\<close> are parameters of the
  model, \<open>None\<close> standing for a result that \<open>isNaN\<close> accepts.
\<close>

datatype 'n Field = Str string | Num 'n

type_synonym 'n Row = "'n Field list"

datatype ParserState =
  START_RECORD | START_FIELD | ESCAPED_CHAR | IN_FIELD | IN_QUOTED_FIELD
| ESCAPE_IN_QUOTED_FIELD | QUOTE_IN_QUOTED_FIELD | AFTER_ESCAPED_CRLF

record 'n Reader =
  dialect :: Dialect
  lines :: "string HasNextIterator"
  fields' :: "'n Row"  \<comment> \<open>the member \<open>fields\<close>\<close>
  field :: string
  numericField :: bool
  state :: ParserState
  lineNum :: nat

text \<open>
  A call either completes or throws an \<open>Error\<close> with a message. A method is a function
  from the object to the completion and the object as the call leaves it, also when
  it throws.
\<close>

datatype 'a completion = Normal 'a | Throw string

text \<open>The value \<open>{value, done}\<close> that \<open>Reader.next()\<close> returns.\<close>

datatype 'n IteratorResult = IteratorResult "'n Row" bool

text \<open>\<open>splitLines\<close>: \<open>acc\<close> is the text from \<open>start\<close> up to the scanning position.\<close>

fun splitLines_from :: "string \<Rightarrow> string \<Rightarrow> string list" where
  "splitLines_from acc [] = []"
| "splitLines_from acc (c # s) =
     (if c = CR \<and> s \<noteq> [] \<and> hd s = LF then (acc @ [CR, LF]) # splitLines_from [] (tl s)
      else if c = CR \<or> c = LF then (acc @ [c]) # splitLines_from [] s
      else splitLines_from (acc @ [c]) s)"

definition splitLines :: "string \<Rightarrow> string list" where
  "splitLines s = splitLines_from [] s"

text \<open>\<open>line.replace(/\r\n$/, '\n')\<close>\<close>

definition replaceCRLF :: "string \<Rightarrow> string" where
  "replaceCRLF line =
     (if 2 \<le> length line \<and> drop (length line - 2) line = [CR, LF]
      then take (length line - 2) line @ [LF] else line)"

text \<open>The constructor's first statement: the source with the newline appended.\<close>

definition terminated :: "string \<Rightarrow> string" where
  "terminated source = (if source \<noteq> [] \<and> last source \<noteq> LF then source @ [LF] else source)"

text \<open>The array \<open>lines\<close> of the constructor.\<close>

definition preparedLines :: "string \<Rightarrow> string list" where
  "preparedLines source = map replaceCRLF (splitLines (terminated source))"

definition newReader :: "string \<Rightarrow> Dialect \<Rightarrow> 'n Reader" where
  "newReader source d =
     \<lparr>dialect = d,
      lines = newHasNextIterator (preparedLines source),
      fields' = [], field = [], numericField = False, state = START_RECORD, lineNum = 0\<rparr>"

definition Reader_reset :: "'n Reader \<Rightarrow> 'n Reader" where
  "Reader_reset r = r\<lparr>fields' := [], state := START_RECORD, numericField := False\<rparr>"

text \<open>The message of the \<open>Error\<close> that \<open>error(message)\<close> throws.\<close>

definition Reader_error :: "'n Reader \<Rightarrow> string \<Rightarrow> string" where
  "Reader_error r message = message @ '', at line '' @ showNat (lineNum r)"

definition addChar :: "'n Reader \<Rightarrow> char \<Rightarrow> 'n Reader" where
  "addChar r c = r\<lparr>field := field r @ [c]\<rparr>"

definition saveField :: "(string \<Rightarrow> 'n option) \<Rightarrow> 'n Reader \<Rightarrow> unit completion \<times> 'n Reader" where
  "saveField Number r =
     (if numericField r then
        (case Number (field r) of
           None \<Rightarrow>
             (Throw (Reader_error r (''could not convert string to number: '' @ field r)),
              r\<lparr>numericField := False\<rparr>)
         | Some f \<Rightarrow>
             (Normal (), r\<lparr>numericField := False, fields' := fields' r @ [Num f], field := []\<rparr>))
      else (Normal (), r\<lparr>fields' := fields' r @ [Str (field r)], field := []\<rparr>))"

text \<open>A statement \<open>this.state = st\<close> that follows a call which may have thrown.\<close>

definition thenState :: "unit completion \<times> 'n Reader \<Rightarrow> ParserState \<Rightarrow> unit completion \<times> 'n Reader" where
  "thenState res st =
     (case res of (Normal u, r) \<Rightarrow> (Normal u, r\<lparr>state := st\<rparr>) | (Throw e, r) \<Rightarrow> (Throw e, r))"

definition endOfRecord :: "char \<Rightarrow> bool" where
  "endOfRecord c = (c = LF \<or> c = CR)"

text \<open>\<open>!chars.hasNext() && !lines.hasNext()\<close>: the second call is made only when the first is false.\<close>

definition endOfData ::
  "char HasNextIterator \<Rightarrow> string HasNextIterator
     \<Rightarrow> bool \<times> char HasNextIterator \<times> string HasNextIterator" where
  "endOfData chars ls =
     (case HasNextIterator_hasNext chars of
        (True, chars') \<Rightarrow> (False, chars', ls)
      | (False, chars') \<Rightarrow>
          (case HasNextIterator_hasNext ls of (b, ls') \<Rightarrow> (\<not> b, chars', ls')))"

text \<open>The text that a template string prints for \<open>dialect.quoteChar\<close>.\<close>

definition showQuoteChar :: "Dialect \<Rightarrow> string" where
  "showQuoteChar d = (case quoteChar d of None \<Rightarrow> ''undefined'' | Some q \<Rightarrow> q)"

function processChar ::
  "(string \<Rightarrow> 'n option) \<Rightarrow> char \<Rightarrow> char HasNextIterator \<Rightarrow> 'n Reader
     \<Rightarrow> (unit completion \<times> 'n Reader) \<times> char HasNextIterator" where
  "processChar Number c chars r =
     (case state r of
        START_RECORD \<Rightarrow>
          if endOfRecord c then ((Normal (), r), chars)
          else processChar Number c chars (r\<lparr>state := START_FIELD\<rparr>)
      | START_FIELD \<Rightarrow>
          if endOfRecord c then (thenState (saveField Number r) START_RECORD, chars)
          else if Some [c] = quoteChar (dialect r) \<and> quoting (dialect r) \<noteq> Quoting_NONE
            then ((Normal (), r\<lparr>state := IN_QUOTED_FIELD\<rparr>), chars)
          else if Some [c] = escapeChar (dialect r)
            then ((Normal (), r\<lparr>state := ESCAPED_CHAR\<rparr>), chars)
          else if c = CHR '' '' \<and> skipInitialSpace (dialect r) then ((Normal (), r), chars)
          else if [c] = delimiter (dialect r) then (saveField Number r, chars)
          else ((Normal (),
                 (addChar (if quoting (dialect r) = Quoting_NON_NUMERIC
                           then r\<lparr>numericField := True\<rparr> else r) c)\<lparr>state := IN_FIELD\<rparr>), chars)
      | ESCAPED_CHAR \<Rightarrow>
          if endOfRecord c then ((Normal (), (addChar r c)\<lparr>state := AFTER_ESCAPED_CRLF\<rparr>), chars)
          else ((Normal (), (addChar r c)\<lparr>state := IN_FIELD\<rparr>), chars)
      | AFTER_ESCAPED_CRLF \<Rightarrow>
          if endOfRecord c then ((Normal (), r), chars)
          else processChar Number c chars (r\<lparr>state := IN_FIELD\<rparr>)
      | IN_FIELD \<Rightarrow>
          if endOfRecord c then (thenState (saveField Number r) START_RECORD, chars)
          else if Some [c] = escapeChar (dialect r)
            then ((Normal (), r\<lparr>state := ESCAPED_CHAR\<rparr>), chars)
          else if [c] = delimiter (dialect r)
            then (thenState (saveField Number r) START_FIELD, chars)
          else ((Normal (), addChar r c), chars)
      | IN_QUOTED_FIELD \<Rightarrow>
          (case endOfData chars (lines r) of
             (eod, chars', ls') \<Rightarrow>
               if eod then ((Normal (), r\<lparr>lines := ls'\<rparr>), chars')
               else if Some [c] = escapeChar (dialect r)
                 then ((Normal (), r\<lparr>lines := ls', state := ESCAPE_IN_QUOTED_FIELD\<rparr>), chars')
               else if Some [c] = quoteChar (dialect r) \<and> quoting (dialect r) \<noteq> Quoting_NONE
                 then (if doubleQuote (dialect r)
                       then ((Normal (), r\<lparr>lines := ls', state := QUOTE_IN_QUOTED_FIELD\<rparr>), chars')
                       else ((Normal (), r\<lparr>lines := ls', state := IN_FIELD\<rparr>), chars'))
               else ((Normal (), addChar (r\<lparr>lines := ls'\<rparr>) c), chars'))
      | ESCAPE_IN_QUOTED_FIELD \<Rightarrow>
          ((Normal (), (addChar r c)\<lparr>state := IN_QUOTED_FIELD\<rparr>), chars)
      | QUOTE_IN_QUOTED_FIELD \<Rightarrow>
          if quoting (dialect r) \<noteq> Quoting_NONE \<and> Some [c] = quoteChar (dialect r)
            then ((Normal (), (addChar r c)\<lparr>state := IN_QUOTED_FIELD\<rparr>), chars)
          else if [c] = delimiter (dialect r)
            then (thenState (saveField Number r) START_FIELD, chars)
          else if endOfRecord c then (thenState (saveField Number r) START_RECORD, chars)
          else if \<not> strict (dialect r) then ((Normal (), (addChar r c)\<lparr>state := IN_FIELD\<rparr>), chars)
          else ((Throw (Reader_error r
                   ([DQUOTE] @ delimiter (dialect r) @ [DQUOTE] @ '' expected after ''
                      @ [DQUOTE] @ showQuoteChar (dialect r) @ [DQUOTE])), r), chars))"
  by pat_completeness auto
termination
  by (relation "measure (\<lambda>(Number, c, chars, r).
        if state r = START_RECORD \<or> state r = AFTER_ESCAPED_CRLF then 1 else 0)") auto

declare processChar.simps [simp del]

text \<open>
  \<open>processChar\<close> reads its two lookahead sequences through \<open>hasNext()\<close> only: what
  they still have to deliver, the line counter and the dialect stay as they are.
\<close>

lemma endOfData_pending:
  "endOfData chars ls = (b, chars', ls') \<Longrightarrow>
     pending chars' = pending chars \<and> pending ls' = pending ls
     \<and> b = (pending chars = [] \<and> pending ls = [])"
  by (auto simp: endOfData_def split: prod.splits bool.splits dest: hasNext_pending)

lemma saveField_lines:
  "saveField Number r = (res, r') \<Longrightarrow> lines r' = lines r \<and> lineNum r' = lineNum r \<and> dialect r' = dialect r"
  by (auto simp: saveField_def split: if_splits option.splits)

lemma thenState_lines:
  "thenState (saveField Number r) st = (res, r') \<Longrightarrow> lines r' = lines r \<and> lineNum r' = lineNum r \<and> dialect r' = dialect r"
  by (auto simp: thenState_def split: prod.splits completion.splits dest: saveField_lines)

lemma processChar_pending:
  "processChar Number c chars r = ((res, r'), chars') \<Longrightarrow>
     pending chars' = pending chars \<and> pending (lines r') = pending (lines r)
     \<and> lineNum r' = lineNum r \<and> dialect r' = dialect r"
proof (induction Number c chars r arbitrary: res r' chars' rule: processChar.induct)
  case (1 Number c chars r)
  show ?case
  proof (cases "state r")
    case START_RECORD
    with 1 show ?thesis
      by (auto simp: processChar.simps [of Number c chars r] split: if_splits)
  next
    case START_FIELD
    with "1.prems" show ?thesis
      by (auto simp: processChar.simps [of Number c chars r] addChar_def
            split: if_splits dest: saveField_lines thenState_lines)
  next
    case ESCAPED_CHAR
    with "1.prems" show ?thesis
      by (auto simp: processChar.simps [of Number c chars r] addChar_def split: if_splits)
  next
    case IN_FIELD
    with "1.prems" show ?thesis
      by (auto simp: processChar.simps [of Number c chars r] addChar_def
            split: if_splits dest: saveField_lines thenState_lines)
  next
    case IN_QUOTED_FIELD
    with "1.prems" show ?thesis
      by (auto simp: processChar.simps [of Number c chars r] addChar_def
            split: if_splits prod.splits dest: endOfData_pending)
  next
    case ESCAPE_IN_QUOTED_FIELD
    with "1.prems" show ?thesis
      by (auto simp: processChar.simps [of Number c chars r] addChar_def split: if_splits)
  next
    case QUOTE_IN_QUOTED_FIELD
    with "1.prems" show ?thesis
      by (auto simp: processChar.simps [of Number c chars r] addChar_def
            split: if_splits dest: saveField_lines thenState_lines)
  next
    case AFTER_ESCAPED_CRLF
    with 1 show ?thesis
      by (auto simp: processChar.simps [of Number c chars r] split: if_splits)
  qed
qed


lemma processChars_decreases:
  "HasNextIterator_next chars = (Some c, chars') \<Longrightarrow>
   processChar Number c chars' r = ((res, r'), chars'') \<Longrightarrow>
     length (pending chars'') < length (pending chars)"
  using next_pending [of chars "Some c" chars']
    processChar_pending [of Number c chars' r res r' chars'']
  by (cases "pending chars") simp_all

text \<open>
  The loop \<open>for (const c of chars)\<close> of \<open>next()\<close>: the NUL test, then \<open>processChar\<close>,
  for each character that \<open>chars.next()\<close> delivers.
\<close>

function processChars ::
  "(string \<Rightarrow> 'n option) \<Rightarrow> char HasNextIterator \<Rightarrow> 'n Reader \<Rightarrow> unit completion \<times> 'n Reader" where
  "processChars Number chars r =
     (case HasNextIterator_next chars of
        (None, chars') \<Rightarrow> (Normal (), r)
      | (Some c, chars') \<Rightarrow>
          if c = NUL then (Throw (Reader_error r ''line contains NULL byte''), r)
          else (case processChar Number c chars' r of
                  ((Normal u, r'), chars'') \<Rightarrow> processChars Number chars'' r'
                | ((Throw e, r'), chars'') \<Rightarrow> (Throw e, r')))"
  by pat_completeness auto
termination
  by (relation "measure (\<lambda>(Number, chars, r). length (pending chars))")
    (auto intro: processChars_decreases [OF sym sym])

declare processChars.simps [simp del]

lemma processChars_pending:
  "processChars Number chars r = (res, r') \<Longrightarrow>
     pending (lines r') = pending (lines r) \<and> lineNum r' = lineNum r \<and> dialect r' = dialect r"
proof (induction Number chars r arbitrary: res r' rule: processChars.induct)
  case (1 Number chars r)
  obtain y chars' where n: "HasNextIterator_next chars = (y, chars')"
    by (cases "HasNextIterator_next chars")
  show ?case
  proof (cases y)
    case None
    with n "1.prems" show ?thesis
      by (simp add: processChars.simps [of Number chars r])
  next
    case (Some c)
    show ?thesis
    proof (cases "c = NUL")
      case True
      with n Some "1.prems" show ?thesis
        by (simp add: processChars.simps [of Number chars r])
    next
      case False
      obtain z r1 chars'' where p: "processChar Number c chars' r = ((z, r1), chars'')"
        by (cases "processChar Number c chars' r") auto
      note keep = processChar_pending [OF p]
      show ?thesis
      proof (cases z)
        case (Normal u)
        with n Some False p "1.prems"
        have "processChars Number chars'' r1 = (res, r')"
          by (simp add: processChars.simps [of Number chars r])
        from "1.IH" [OF n [symmetric] Some False p [symmetric] refl Normal this] keep
        show ?thesis by simp
      next
        case (Throw e)
        with n Some False p "1.prems" keep show ?thesis
          by (simp add: processChars.simps [of Number chars r])
      qed
    qed
  qed
qed

lemma nextLoop_decreases:
  "HasNextIterator_next ls = (Some line, ls') \<Longrightarrow>
   processChars Number chars (r\<lparr>lines := ls', lineNum := n\<rparr>) = (res, r') \<Longrightarrow>
     length (pending (lines r')) < length (pending ls)"
  using next_pending [of ls "Some line" ls']
    processChars_pending [of Number chars "r\<lparr>lines := ls', lineNum := n\<rparr>" res r']
  by (cases "pending ls") simp_all

text \<open>The end of \<open>next()\<close> after the loop: the row is handed out and \<open>fields\<close> emptied.\<close>

definition returnRow :: "'n Reader \<Rightarrow> 'n IteratorResult completion \<times> 'n Reader" where
  "returnRow r = (Normal (IteratorResult (fields' r) False), r\<lparr>fields' := []\<rparr>)"

text \<open>
  The \<open>do ... while\<close> loop of \<open>next()\<close> from the top of its body. \<open>!line\<close> holds when
  the line sequence is exhausted (\<open>undefined\<close>) and when the line is the empty string.
\<close>

function nextLoop ::
  "(string \<Rightarrow> 'n option) \<Rightarrow> 'n Reader \<Rightarrow> 'n IteratorResult completion \<times> 'n Reader" where
  "nextLoop Number r =
     (case HasNextIterator_next (lines r) of
        (result, ls') \<Rightarrow>
          if result = None \<or> result = Some [] then
            (if field r \<noteq> [] \<or> state r = IN_QUOTED_FIELD then
               (if strict (dialect r)
                then (Throw (Reader_error r ''unexpected end of data''), r\<lparr>lines := ls'\<rparr>)
                else (case saveField Number (r\<lparr>lines := ls'\<rparr>) of
                        (Normal u, r') \<Rightarrow> returnRow r'
                      | (Throw e, r') \<Rightarrow> (Throw e, r')))
             else (Normal (IteratorResult [] True), r\<lparr>lines := ls'\<rparr>))
          else
            (case processChars Number (newHasNextIterator (the result))
                    (r\<lparr>lines := ls', lineNum := lineNum r + 1\<rparr>) of
               (Normal u, r') \<Rightarrow>
                 if state r' \<noteq> START_RECORD then nextLoop Number r' else returnRow r'
             | (Throw e, r') \<Rightarrow> (Throw e, r')))"
  by pat_completeness auto
termination
  by (relation "measure (\<lambda>(Number, r). length (pending (lines r)))")
    (auto intro: nextLoop_decreases [OF sym sym])

declare nextLoop.simps [simp del]

definition Reader_next ::
  "(string \<Rightarrow> 'n option) \<Rightarrow> 'n Reader \<Rightarrow> 'n IteratorResult completion \<times> 'n Reader" where
  "Reader_next Number r = nextLoop Number (Reader_reset r)"

lemma saveField_Normal:
  "saveField Number r = (Normal u, r') \<Longrightarrow> field r' = [] \<and> lines r' = lines r"
  by (auto simp: saveField_def split: if_splits option.splits)

lemma nextLoop_exhausted:
  assumes "HasNextIterator_next (lines r) = (result, ls')"
    and "result = None \<or> result = Some []"
  shows "nextLoop Number r =
     (if field r \<noteq> [] \<or> state r = IN_QUOTED_FIELD then
        (if strict (dialect r)
         then (Throw (Reader_error r ''unexpected end of data''), r\<lparr>lines := ls'\<rparr>)
         else (case saveField Number (r\<lparr>lines := ls'\<rparr>) of
                 (Normal u, r') \<Rightarrow> returnRow r'
               | (Throw e, r') \<Rightarrow> (Throw e, r')))
      else (Normal (IteratorResult [] True), r\<lparr>lines := ls'\<rparr>))"
  using assms by (subst nextLoop.simps) auto

lemma nextLoop_line:
  assumes "HasNextIterator_next (lines r) = (Some line, ls')" and "line \<noteq> []"
  shows "nextLoop Number r =
     (case processChars Number (newHasNextIterator line)
             (r\<lparr>lines := ls', lineNum := lineNum r + 1\<rparr>) of
        (Normal u, r') \<Rightarrow> if state r' \<noteq> START_RECORD then nextLoop Number r' else returnRow r'
      | (Throw e, r') \<Rightarrow> (Throw e, r'))"
  using assms by (subst nextLoop.simps) simp

lemma nextLoop_progress:
  "nextLoop Number r = (Normal (IteratorResult v False), r') \<Longrightarrow>
     length (pending (lines r')) < length (pending (lines r))
     \<or> (length (pending (lines r')) \<le> length (pending (lines r)) \<and> field r' = []
        \<and> (field r \<noteq> [] \<or> state r = IN_QUOTED_FIELD))"
proof (induction Number r arbitrary: v r' rule: nextLoop.induct)
  case (1 Number r)
  obtain result ls' where n: "HasNextIterator_next (lines r) = (result, ls')"
    by (cases "HasNextIterator_next (lines r)")
  note np = next_pending [OF n]
  show ?case
  proof (cases "result = None \<or> result = Some []")
    case True
    have "length (pending ls') \<le> length (pending (lines r))"
      using np by (cases "pending (lines r)") simp_all
    with "1.prems" show ?thesis
      unfolding nextLoop_exhausted [OF n True]
      by (auto simp: returnRow_def split: if_splits prod.splits completion.splits
            dest!: saveField_Normal)
  next
    case False
    then obtain line where line: "result = Some line" "line \<noteq> []" by (cases result) auto
    with np have len: "length (pending ls') < length (pending (lines r))"
      by (cases "pending (lines r)") simp_all
    obtain z r1 where p: "processChars Number (newHasNextIterator (the result))
        (r\<lparr>lines := ls', lineNum := lineNum r + 1\<rparr>) = (z, r1)"
      by (cases "processChars Number (newHasNextIterator (the result))
        (r\<lparr>lines := ls', lineNum := lineNum r + 1\<rparr>)")
    from processChars_pending [OF p] have keep: "pending (lines r1) = pending ls'" by simp
    note unfold = nextLoop_line [OF n [unfolded line(1)] line(2), of Number]
    from p line have p': "processChars Number (newHasNextIterator line)
        (r\<lparr>lines := ls', lineNum := lineNum r + 1\<rparr>) = (z, r1)" by simp
    show ?thesis
    proof (cases z)
      case (Throw e)
      with "1.prems" show ?thesis unfolding unfold p' by simp
    next
      case (Normal u)
      show ?thesis
      proof (cases "state r1 \<noteq> START_RECORD")
        case True
        with Normal "1.prems"
        have "nextLoop Number r1 = (Normal (IteratorResult v False), r')"
          unfolding unfold p' by simp
        from "1.IH" [OF n [symmetric] False p [symmetric] Normal True this] keep len
        show ?thesis by auto
      next
        case False
        with Normal "1.prems" keep len show ?thesis
          unfolding unfold p' by (auto simp: returnRow_def)
      qed
    qed
  qed
qed

lemma Reader_next_decreases:
  "Reader_next Number r = (Normal (IteratorResult v False), r') \<Longrightarrow>
     2 * length (pending (lines r')) + (if field r' = [] then 0 else 1)
       < 2 * length (pending (lines r)) + (if field r = [] then 0 else (1::nat))"
  using nextLoop_progress [of Number "Reader_reset r" v r']
  by (auto simp: Reader_next_def Reader_reset_def split: if_splits)

text \<open>
  What \<open>for (const row of reader)\<close> delivers: the rows that \<open>next()\<close> returns until
  it reports \<open>done\<close>, and the message of the error if a call throws instead.
\<close>

function Reader_rows ::
  "(string \<Rightarrow> 'n option) \<Rightarrow> 'n Reader \<Rightarrow> 'n Row list \<times> string option" where
  "Reader_rows Number r =
     (case Reader_next Number r of
        (Throw e, r') \<Rightarrow> ([], Some e)
      | (Normal (IteratorResult v d), r') \<Rightarrow>
          if d then ([], None)
          else (case Reader_rows Number r' of (rows, err) \<Rightarrow> (v # rows, err)))"
  by pat_completeness auto
termination
  by (relation "measure (\<lambda>(Number, r).
        2 * length (pending (lines r)) + (if field r = [] then 0 else 1))")
    (auto dest!: Reader_next_decreases [OF sym] split: if_splits)


declare Reader_rows.simps [simp del]

text \<open>The generator \<open>reader(source, opts)\<close>; \<open>opts.dialect\<close> defaults to \<open>excel\<close>.\<close>

definition reader ::
  "(string \<Rightarrow> 'n option) \<Rightarrow> string \<Rightarrow> Dialect option \<Rightarrow> 'n Row list \<times> string option" where
  "reader Number source opts_dialect =
     Reader_rows Number (newReader source (case opts_dialect of None \<Rightarrow> excel | Some d \<Rightarrow> d))"

text \<open>The reader as \<open>n\<close> calls of \<open>next()\<close> leave it, whatever each call returned or threw.\<close>

fun afterNext :: "(string \<Rightarrow> 'n option) \<Rightarrow> nat \<Rightarrow> 'n Reader \<Rightarrow> 'n Reader" where
  "afterNext Number 0 r = r"
| "afterNext Number (Suc n) r = afterNext Number n (snd (Reader_next Number r))"

text \<open>
  \<open>zip\<close>: \<open>a.map((v, i) => [v, b[i]])\<close>. The second component is \<open>None\<close> where \<open>b[i]\<close> is
  \<open>undefined\<close>, the index being out of range.
\<close>

definition zip' :: "'a list \<Rightarrow> 'b list \<Rightarrow> ('a \<times> 'b option) list" where
  "zip' a b = map (\<lambda>i. (a ! i, if i < length b then Some (b ! i) else None)) [0..<length a]"

text \<open>The value of a property of a record: a field, or the array of the surplus fields.\<close>

datatype 'n RecordValue = Single "'n Field" | Rest "'n Row"

record 'n RecordReaderOpts =
  opts_dialect :: "Dialect option"
  opts_fields :: "string list option"
  restKey :: "string option"
  restVal :: "'n Field option"

text \<open>
  \<open>Object.fromEntries\<close>: an object is a map from property names to values, a later
  entry replacing an earlier one of the same name. A key that is not a string is
  converted to one: \<open>undefined\<close> gives the name \<open>undefined\<close>, and a number is printed
  by the platform (\<open>numberToString\<close>, a parameter of the model).
\<close>

definition propertyKey :: "('n \<Rightarrow> string) \<Rightarrow> 'n Field option \<Rightarrow> string" where
  "propertyKey numberToString k =
     (case k of None \<Rightarrow> ''undefined'' | Some (Str s) \<Rightarrow> s | Some (Num n) \<Rightarrow> numberToString n)"

definition fromEntries :: "('n \<Rightarrow> string) \<Rightarrow> ('n Field option \<times> 'v) list \<Rightarrow> (string \<rightharpoonup> 'v)" where
  "fromEntries numberToString entries =
     foldl (\<lambda>obj (k, v). obj(propertyKey numberToString k \<mapsto> v)) Map.empty entries"

text \<open>The record that the loop body of \<open>recordReader\<close> yields for a non-empty row.\<close>

definition recordOfRow ::
  "('n \<Rightarrow> string) \<Rightarrow> 'n RecordReaderOpts \<Rightarrow> 'n Row \<Rightarrow> 'n Row
     \<Rightarrow> (string \<rightharpoonup> 'n RecordValue option)" where
  "recordOfRow numberToString opts headers row =
     (let lh = length headers; lr = length row in
      if lh < lr then
        fromEntries numberToString
          (zip' (map Some headers @ [map_option Str (restKey opts)])
                (map Single (take lh row) @ [Rest (drop lh row)]))
      else
        fromEntries numberToString
          (zip' (map Some headers)
             (map Single
                (if lh > lr
                 then row @ replicate (lh - lr) (case restVal opts of None \<Rightarrow> Str [] | Some v \<Rightarrow> v)
                 else row))))"

text \<open>The loop \<open>for (const row of reader)\<close> of \<open>recordReader\<close>, over what the reader delivers.\<close>

definition recordsOf ::
  "('n \<Rightarrow> string) \<Rightarrow> 'n RecordReaderOpts \<Rightarrow> 'n Row \<Rightarrow> 'n Row list \<times> string option
     \<Rightarrow> (string \<rightharpoonup> 'n RecordValue option) list \<times> string option" where
  "recordsOf numberToString opts headers delivered =
     (case delivered of
        (rows, err) \<Rightarrow>
          (map (recordOfRow numberToString opts headers) (filter (\<lambda>row. length row \<noteq> 0) rows), err))"

text \<open>
  The generator \<open>recordReader(source, opts)\<close>: the records it yields, and the message of
  the error if it throws. \<open>opts.fields || reader.next().value || []\<close>: an array is
  truthy even when it is empty, so \<open>reader.next()\<close> is called exactly when \<open>opts.fields\<close>
  is unset, and its value, an array, is taken. (The doc comment of the option speaks
  of a list "omitted or empty"; the expression tests for an omitted one only.)
\<close>

definition recordReader ::
  "(string \<Rightarrow> 'n option) \<Rightarrow> ('n \<Rightarrow> string) \<Rightarrow> string \<Rightarrow> 'n RecordReaderOpts
     \<Rightarrow> (string \<rightharpoonup> 'n RecordValue option) list \<times> string option" where
  "recordReader Number numberToString source opts =
     (let r = newReader source (case opts_dialect opts of None \<Rightarrow> excel | Some d \<Rightarrow> d) in
      case opts_fields opts of
        Some fs \<Rightarrow> recordsOf numberToString opts (map Str fs) (Reader_rows Number r)
      | None \<Rightarrow>
          (case Reader_next Number r of
             (Throw e, r') \<Rightarrow> ([], Some e)
           | (Normal (IteratorResult v d), r') \<Rightarrow>
               recordsOf numberToString opts v (Reader_rows Number r')))"


section \<open>Sample inputs\<close>

text \<open>
  The platform's \<open>Number\<close> on the texts that the examples below convert: \<open>3\<close>, \<open>7.3\<close>
  and \<open> 9\<close> are numbers; no other text is converted there but \<open>a\<close> followed by a
  newline, which is not a number.
\<close>

definition exampleNumber :: "string \<Rightarrow> real option" where
  "exampleNumber s =
     (if s = ''3'' then Some 3 else if s = ''7.3'' then Some (73 / 10)
      else if s = '' 9'' then Some 9 else None)"

text \<open>
  The reader over the truncated input \<open>a,"\<close> when the last character of its only line
  is about to be processed: the quote has opened a field.
\<close>

definition truncatedReader :: "Dialect \<Rightarrow> real Reader" where
  "truncatedReader d = \<lparr>dialect = d, lines = newHasNextIterator [], fields' = [Str ''a''],
     field = [], numericField = False, state = IN_QUOTED_FIELD, lineNum = 1\<rparr>"

text \<open>The reader after \<open>"ab"\<close> of its first line: the second quote has been seen.\<close>

definition closedQuoteReader :: "Dialect \<Rightarrow> real Reader" where
  "closedQuoteReader d = \<lparr>dialect = d, lines = newHasNextIterator [], fields' = [],
     field = ''ab'', numericField = False, state = QUOTE_IN_QUOTED_FIELD, lineNum = 1\<rparr>"

text \<open>
  The reader over the source made of \<open>a\<close> and a backslash, under \<open>NON_NUMERIC\<close>
  quoting with the backslash as escape character, after its only line: the newline
  that the constructor appended has been escaped into the field.
\<close>

definition escapedEndReader :: "real Reader" where
  "escapedEndReader =
     \<lparr>dialect = excel\<lparr>quoting := Quoting_NON_NUMERIC, escapeChar := Some [CHR 0x5C]\<rparr>,
      lines = newHasNextIterator [], fields' = [], field = ''a'' @ [LF],
      numericField = True, state = AFTER_ESCAPED_CRLF, lineNum = 1\<rparr>"


text \<open>The source of the test "should report the line number".\<close>

definition threeLines :: string where
  "threeLines = ''line,1'' @ [CR, LF] @ ''line,2'' @ [CR, LF] @ ''line,3''"

text \<open>How the platform prints the numbers of the examples, where a number is a key.\<close>

definition exampleNumberToString :: "real \<Rightarrow> string" where
  "exampleNumberToString x = (if x = 3 then ''3'' else if x = 9 then ''9'' else ''7.3'')"

text \<open>No option given: every option of \<open>recordReader\<close> takes its default.\<close>

definition defaultOpts :: "real RecordReaderOpts" where
  "defaultOpts = \<lparr>opts_dialect = None, opts_fields = None, restKey = None, restVal = None\<rparr>"

text \<open>A header line, a row that is too long, a blank line and a row that is too short.\<close>

definition recordsSource :: string where
  "recordsSource = ''a,b,c'' @ [CR, LF] @ ''1,2,3,4,5'' @ [CR, LF] @ [CR, LF] @ ''7,8''"

text \<open>A header line that names a column twice, and a row with one value more.\<close>

definition duplicateSource :: string where
  "duplicateSource = ''a,a,b'' @ [CR, LF] @ ''1,2,3,4''"

section \<open>Properties of the lookahead sequence\<close>

lemma calls_contract: "calls cs it = lookahead_contract cs (pending it)"
proof (induction cs arbitrary: it)
  case Nil
  show ?case by simp
next
  case (Cons c cs)
  show ?case
  proof (cases c)
    case CallHasNext
    obtain b it' where h: "HasNextIterator_hasNext it = (b, it')"
      by (cases "HasNextIterator_hasNext it")
    from hasNext_pending [OF h] Cons.IH [of it'] h CallHasNext
    show ?thesis by simp
  next
    case CallNext
    obtain res it' where n: "HasNextIterator_next it = (res, it')"
      by (cases "HasNextIterator_next it")
    from next_pending [OF n] Cons.IH [of it'] n CallNext
    show ?thesis by (cases "pending it") simp_all
  qed
qed

lemma calls_hasNext_prefix:
  "calls (replicate n CallHasNext @ cs) it
     = replicate n (SawHasNext (pending it \<noteq> [])) @ calls cs it"
  by (simp add: calls_contract) (induction n, simp_all)

lemma nextResults_contract:
  "nextResults (lookahead_contract cs xs)
     = take (countNext cs) (map Some xs) @ replicate (countNext cs - length xs) None"
proof (induction cs arbitrary: xs)
  case Nil
  show ?case by simp
next
  case (Cons c cs)
  show ?case
  proof (cases c)
    case CallHasNext
    with Cons.IH [of xs] show ?thesis by simp
  next
    case CallNext
    show ?thesis
    proof (cases xs)
      case Nil
      with Cons.IH [of "[]"] CallNext show ?thesis
        by (simp add: replicate_append_same)
    next
      case (Cons x rest)
      with Cons.IH [of rest] CallNext show ?thesis by simp
    qed
  qed
qed

text \<open>
  C9. For every underlying sequence \<open>xs\<close> and every interleaving \<open>cs\<close> of \<open>hasNext()\<close>
  and \<open>next()\<close> calls on a fresh wrapper of \<open>xs\<close>: the results are those of the
  lookahead contract on \<open>xs\<close>; any number \<open>n\<close> of consecutive \<open>hasNext()\<close> calls all
  give the same answer and leave the results of every later call unchanged; and the
  \<open>next()\<close> calls of the interleaving return the elements of \<open>xs\<close> one by one in
  order (then the end marker), whether an element was cached by an earlier
  \<open>hasNext()\<close> or is pulled from the wrapped iterator, so nothing is skipped,
  repeated or reordered.
\<close>

theorem C9_hasNext_idempotent_next_in_order:
  "calls cs (newHasNextIterator xs) = lookahead_contract cs xs
   \<and> calls (replicate n CallHasNext @ cs) (newHasNextIterator xs)
       = replicate n (SawHasNext (xs \<noteq> [])) @ calls cs (newHasNextIterator xs)
   \<and> nextResults (calls cs (newHasNextIterator xs))
       = take (countNext cs) (map Some xs) @ replicate (countNext cs - length xs) None"
  using calls_hasNext_prefix [of n cs "newHasNextIterator xs"]
    nextResults_contract [of cs xs]
  by (simp add: calls_contract)

section \<open>Properties of the Reader\<close>

text \<open>The equations that evaluate a reader on a given source.\<close>

lemmas run_simps =
  reader_def Reader_rows.simps Reader_next_def nextLoop.simps processChars.simps processChar.simps
  newReader_def preparedLines_def terminated_def splitLines_def replaceCRLF_def newHasNextIterator_def
  HasNextIterator_next_def HasNextIterator_hasNext_def iterator_next_def
  Reader_reset_def excel_def saveField_def thenState_def endOfRecord_def endOfData_def
  addChar_def returnRow_def Reader_error_def showQuoteChar_def showNat.simps

lemma hasNext_exhausted:
  "pending it = [] \<Longrightarrow> HasNextIterator_hasNext it = (False, it)"
  by (cases it) (simp add: pending_def HasNextIterator_hasNext_def HasNextIterator_next_def
        iterator_next_def)

lemma next_exhausted:
  "pending it = [] \<Longrightarrow> HasNextIterator_next it = (None, it)"
  by (cases it) (simp add: pending_def HasNextIterator_next_def iterator_next_def)

text \<open>
  C2. For every reader in state \<open>IN_QUOTED_FIELD\<close> and every character \<open>c\<close>: when the
  lookahead over the characters of the current line has no next element and the
  lookahead over the lines has no next element, \<open>processChar\<close> completes without an
  error and leaves the reader as it was: \<open>c\<close> is not appended to the field and the
  state does not change. This holds in particular when \<open>c\<close> is the quote character.
\<close>

theorem C2_end_of_data_absorbs_character:
  assumes "state r = IN_QUOTED_FIELD"
    and "pending chars = []"
    and "pending (lines r) = []"
  shows "processChar Number c chars r = ((Normal (), r), chars)"
  using assms
  by (simp add: processChar.simps [of Number c chars r] endOfData_def hasNext_exhausted)

theorem C2_end_of_data_absorbs_character_witness:
  "state (truncatedReader excel) = IN_QUOTED_FIELD
   \<and> pending (newHasNextIterator ([] :: string)) = []
   \<and> pending (lines (truncatedReader excel)) = []
   \<and> quoteChar (dialect (truncatedReader excel)) = Some [DQUOTE]
   \<and> processChar exampleNumber DQUOTE (newHasNextIterator []) (truncatedReader excel)
       = ((Normal (), truncatedReader excel), newHasNextIterator [])"
  using C2_end_of_data_absorbs_character
    [of "truncatedReader excel" "newHasNextIterator []" exampleNumber DQUOTE]
  by (simp add: truncatedReader_def excel_def)

text \<open>
  C3. For every reader in state \<open>QUOTE_IN_QUOTED_FIELD\<close> and every character \<open>c\<close> that
  is neither the quote character, nor the delimiter, nor an end-of-record character:
  with \<open>strict\<close> false \<open>processChar\<close> appends \<open>c\<close> to the field and the state becomes
  \<open>IN_FIELD\<close>; with \<open>strict\<close> true it throws the error whose message is
  \<open>"<delimiter>" expected after "<quoteChar>", at line <n>\<close>, \<open>n\<close> the line counter.
\<close>

theorem C3_char_after_closing_quote:
  assumes "state r = QUOTE_IN_QUOTED_FIELD"
    and "quoteChar (dialect r) \<noteq> Some [c]"
    and "delimiter (dialect r) \<noteq> [c]"
    and "\<not> endOfRecord c"
  shows "processChar Number c chars r =
     (if strict (dialect r)
      then ((Throw ([DQUOTE] @ delimiter (dialect r) @ [DQUOTE] @ '' expected after ''
                     @ [DQUOTE] @ showQuoteChar (dialect r) @ [DQUOTE]
                     @ '', at line '' @ showNat (lineNum r)), r), chars)
      else ((Normal (), r\<lparr>field := field r @ [c], state := IN_FIELD\<rparr>), chars))"
  using assms
  by (auto simp: processChar.simps [of Number c chars r] Reader_error_def addChar_def)

theorem C3_char_after_closing_quote_witness:
  "state (closedQuoteReader excel) = QUOTE_IN_QUOTED_FIELD
   \<and> quoteChar excel \<noteq> Some ''c'' \<and> delimiter excel \<noteq> ''c'' \<and> \<not> endOfRecord (CHR ''c'')
   \<and> processChar exampleNumber (CHR ''c'') (newHasNextIterator [LF]) (closedQuoteReader excel)
       = ((Normal (), (closedQuoteReader excel)\<lparr>field := ''abc'', state := IN_FIELD\<rparr>),
          newHasNextIterator [LF])
   \<and> processChar exampleNumber (CHR ''c'') (newHasNextIterator [LF])
         (closedQuoteReader (excel\<lparr>strict := True\<rparr>))
       = ((Throw ([DQUOTE] @ '','' @ [DQUOTE] @ '' expected after '' @ [DQUOTE, DQUOTE, DQUOTE]
                   @ '', at line 1''),
           closedQuoteReader (excel\<lparr>strict := True\<rparr>)), newHasNextIterator [LF])"
  using C3_char_after_closing_quote
      [of "closedQuoteReader excel" "CHR ''c''" exampleNumber "newHasNextIterator [LF]"]
    C3_char_after_closing_quote
      [of "closedQuoteReader (excel\<lparr>strict := True\<rparr>)" "CHR ''c''" exampleNumber
          "newHasNextIterator [LF]"]
  by (simp add: closedQuoteReader_def excel_def endOfRecord_def showQuoteChar_def showNat.simps)

lemma Reader_next_done:
  assumes "pending (lines r) = []" and "field r = []"
  shows "Reader_next Number r = (Normal (IteratorResult [] True), Reader_reset r)"
proof -
  have "pending (lines (Reader_reset r)) = []" using assms by (simp add: Reader_reset_def)
  from next_exhausted [OF this] assms show ?thesis
    unfolding Reader_next_def
    by (subst nextLoop_exhausted [of _ None "lines (Reader_reset r)"])
      (simp_all add: Reader_reset_def)
qed

lemma afterNext_done:
  "pending (lines r) = [] \<Longrightarrow> field r = [] \<Longrightarrow> afterNext Number (Suc n) r = Reader_reset r"
proof (induction n arbitrary: r)
  case 0
  then show ?case by (simp add: Reader_next_done)
next
  case (Suc n)
  have "afterNext Number (Suc (Suc n)) r = afterNext Number (Suc n) (Reader_reset r)"
    using Suc.prems by (simp add: Reader_next_done)
  also have "\<dots> = Reader_reset (Reader_reset r)"
    using Suc.prems by (intro Suc.IH) (simp_all add: Reader_reset_def)
  finally show ?case by (simp add: Reader_reset_def)
qed

text \<open>
  C10. When the line sequence of a reader is exhausted and no field text is pending,
  \<open>next()\<close> (which first resets the state to \<open>START_RECORD\<close>) returns
  \<open>{value: [], done: true}\<close>, an empty row and not an undefined value, and so does
  every later call of \<open>next()\<close>. A reader over the empty source is in this situation
  from its first call on.
\<close>

theorem C10_end_marker_repeats:
  "(pending (lines r) = [] \<and> field r = [] \<longrightarrow>
      Reader_next Number r = (Normal (IteratorResult [] True), Reader_reset r)
      \<and> (\<forall>n. fst (Reader_next Number (afterNext Number n r)) = Normal (IteratorResult [] True)))
   \<and> (\<forall>n. fst (Reader_next Number (afterNext Number n (newReader [] d)))
         = Normal (IteratorResult [] True))"
proof -
  have rep: "fst (Reader_next Number (afterNext Number n r)) = Normal (IteratorResult [] True)"
    if "pending (lines r) = []" "field r = []" for n and r :: "'a Reader"
  proof (cases n)
    case 0
    with that show ?thesis by (simp add: Reader_next_done)
  next
    case (Suc m)
    with that show ?thesis
      by (simp only: afterNext_done [OF that]) (simp add: Reader_next_done Reader_reset_def)
  qed
  have "pending (lines (newReader [] d :: 'a Reader)) = []" "field (newReader [] d :: 'a Reader) = []"
    by (simp_all add: newReader_def preparedLines_def terminated_def splitLines_def)
  with rep show ?thesis by (auto simp: Reader_next_done)
qed


theorem C10_end_marker_repeats_witness:
  "pending (lines (afterNext exampleNumber 1 (newReader ''a'' excel))) = []
   \<and> field (afterNext exampleNumber 1 (newReader ''a'' excel)) = []
   \<and> fst (Reader_next exampleNumber (newReader ''a'' excel)) = Normal (IteratorResult [Str ''a''] False)
   \<and> fst (Reader_next exampleNumber (afterNext exampleNumber 1 (newReader ''a'' excel)))
       = Normal (IteratorResult [] True)
   \<and> fst (Reader_next exampleNumber (afterNext exampleNumber 3
         (afterNext exampleNumber 1 (newReader ''a'' excel)))) = Normal (IteratorResult [] True)"
proof -
  have a: "afterNext exampleNumber 1 (newReader ''a'' excel)
      = \<lparr>dialect = excel, lines = newHasNextIterator [], fields' = [], field = [],
         numericField = False, state = START_RECORD, lineNum = 1\<rparr>"
    and b: "fst (Reader_next exampleNumber (newReader ''a'' excel))
      = Normal (IteratorResult [Str ''a''] False)"
    by (simp_all add: run_simps pending_def)
  have c: "pending (lines (afterNext exampleNumber 1 (newReader ''a'' excel))) = []"
    "field (afterNext exampleNumber 1 (newReader ''a'' excel)) = []"
    unfolding a by (simp_all add: pending_def newHasNextIterator_def)
  from C10_end_marker_repeats [of "afterNext exampleNumber 1 (newReader ''a'' excel)" exampleNumber] c
  have "\<forall>n. fst (Reader_next exampleNumber (afterNext exampleNumber n
         (afterNext exampleNumber 1 (newReader ''a'' excel)))) = Normal (IteratorResult [] True)"
    by blast
  from this [rule_format, of 0] this [rule_format, of 3] b c show ?thesis by simp
qed

text \<open>
  The claim C1 as it was stated fails: in non-strict mode, under \<open>NON_NUMERIC\<close> quoting
  with the backslash as escape character, the source made of \<open>a\<close> and a backslash
  leaves the field \<open>a\<close> plus newline
  pending and marked numeric when the lines are exhausted, and \<open>next()\<close> throws the
  conversion error instead of returning a row.
\<close>

theorem C1_counterexample:
  "fst (Reader_next exampleNumber (newReader (''a'' @ [CHR 0x5C])
          (excel\<lparr>quoting := Quoting_NON_NUMERIC, escapeChar := Some [CHR 0x5C]\<rparr>)))
     = Throw (''could not convert string to number: a'' @ [LF] @ '', at line 1'')
   \<and> processChars exampleNumber (newHasNextIterator (''a'' @ [CHR 0x5C, LF]))
        ((Reader_reset (newReader (''a'' @ [CHR 0x5C])
           (excel\<lparr>quoting := Quoting_NON_NUMERIC, escapeChar := Some [CHR 0x5C]\<rparr>)))
         \<lparr>lines := newHasNextIterator [], lineNum := 1\<rparr>)
     = (Normal (), escapedEndReader)
   \<and> pending (lines escapedEndReader) = [] \<and> field escapedEndReader \<noteq> []
   \<and> \<not> strict (dialect escapedEndReader)
   \<and> fst (nextLoop exampleNumber escapedEndReader)
     = Throw (''could not convert string to number: a'' @ [LF] @ '', at line 1'')"
  by (simp add: run_simps escapedEndReader_def pending_def exampleNumber_def)

text \<open>
  C1 (amended). For every reader and dialect: when the line sequence is found exhausted
  in the loop of \<open>next()\<close> while the field text is non-empty or the state is
  \<open>IN_QUOTED_FIELD\<close>, then with \<open>strict\<close> true the call throws
  \<open>unexpected end of data, at line <n>\<close>, \<open>n\<close> the line counter; with \<open>strict\<close> false
  the pending field is completed by \<open>saveField\<close>: a field marked numeric whose text
  does not convert makes the call throw \<open>could not convert string to number: <text>,
  at line <n>\<close>, and otherwise the field (converted when marked numeric) becomes the
  last field of the row, which is returned. Reading the truncated input \<open>a,"\<close> yields
  exactly the row \<open>['a', '']\<close> in non-strict mode and throws
  \<open>unexpected end of data, at line 1\<close> in strict mode.
\<close>

theorem C1_exhausted_with_pending_field:
  "(pending (lines r) = [] \<and> (field r \<noteq> [] \<or> state r = IN_QUOTED_FIELD) \<longrightarrow>
     nextLoop Number r =
       (if strict (dialect r)
        then (Throw (''unexpected end of data, at line '' @ showNat (lineNum r)), r)
        else if numericField r then
          (case Number (field r) of
             None \<Rightarrow>
               (Throw (''could not convert string to number: '' @ field r @ '', at line ''
                        @ showNat (lineNum r)), r\<lparr>numericField := False\<rparr>)
           | Some f \<Rightarrow>
               (Normal (IteratorResult (fields' r @ [Num f]) False),
                r\<lparr>numericField := False, fields' := [], field := []\<rparr>))
        else (Normal (IteratorResult (fields' r @ [Str (field r)]) False),
              r\<lparr>fields' := [], field := []\<rparr>)))
   \<and> reader Number (''a,'' @ [DQUOTE]) (Some (excel\<lparr>strict := False\<rparr>))
       = ([[Str ''a'', Str []]], None)
   \<and> reader Number (''a,'' @ [DQUOTE]) (Some (excel\<lparr>strict := True\<rparr>))
       = ([], Some ''unexpected end of data, at line 1'')"
proof (intro conjI impI)
  assume h: "pending (lines r) = [] \<and> (field r \<noteq> [] \<or> state r = IN_QUOTED_FIELD)"
  then have n: "HasNextIterator_next (lines r) = (None, lines r)" by (simp add: next_exhausted)
  from h show "nextLoop Number r =
       (if strict (dialect r)
        then (Throw (''unexpected end of data, at line '' @ showNat (lineNum r)), r)
        else if numericField r then
          (case Number (field r) of
             None \<Rightarrow>
               (Throw (''could not convert string to number: '' @ field r @ '', at line ''
                        @ showNat (lineNum r)), r\<lparr>numericField := False\<rparr>)
           | Some f \<Rightarrow>
               (Normal (IteratorResult (fields' r @ [Num f]) False),
                r\<lparr>numericField := False, fields' := [], field := []\<rparr>))
        else (Normal (IteratorResult (fields' r @ [Str (field r)]) False),
              r\<lparr>fields' := [], field := []\<rparr>))"
    unfolding nextLoop_exhausted [OF n disjI1 [OF refl]]
    by (auto simp: saveField_def Reader_error_def returnRow_def split: option.splits)
next
  show "reader Number (''a,'' @ [DQUOTE]) (Some (excel\<lparr>strict := False\<rparr>))
       = ([[Str ''a'', Str []]], None)"
    by (simp add: run_simps)
next
  show "reader Number (''a,'' @ [DQUOTE]) (Some (excel\<lparr>strict := True\<rparr>))
       = ([], Some ''unexpected end of data, at line 1'')"
    by (simp add: run_simps)
qed

theorem C1_exhausted_with_pending_field_witness:
  "pending (lines (truncatedReader excel)) = []
   \<and> state (truncatedReader excel) = IN_QUOTED_FIELD
   \<and> nextLoop exampleNumber (truncatedReader excel)
       = (Normal (IteratorResult [Str ''a'', Str []] False),
          (truncatedReader excel)\<lparr>fields' := []\<rparr>)
   \<and> nextLoop exampleNumber (truncatedReader (excel\<lparr>strict := True\<rparr>))
       = (Throw ''unexpected end of data, at line 1'', truncatedReader (excel\<lparr>strict := True\<rparr>))"
  using C1_exhausted_with_pending_field [of "truncatedReader excel" exampleNumber]
    C1_exhausted_with_pending_field [of "truncatedReader (excel\<lparr>strict := True\<rparr>)" exampleNumber]
  by (simp add: truncatedReader_def excel_def pending_def newHasNextIterator_def showNat.simps)



subsection \<open>Input preparation\<close>

lemma splitLines_from_body:
  "\<forall>c\<in>set body. \<not> endOfRecord c \<Longrightarrow>
     splitLines_from acc (body @ rest) = splitLines_from (acc @ body) rest"
  by (induction body arbitrary: acc) (auto simp: endOfRecord_def)

lemma splitLines_CRLF:
  "\<forall>c\<in>set body. \<not> endOfRecord c \<Longrightarrow>
     splitLines (body @ [CR, LF] @ rest) = (body @ [CR, LF]) # splitLines rest"
  by (simp add: splitLines_def splitLines_from_body)

lemma splitLines_CR:
  "\<forall>c\<in>set body. \<not> endOfRecord c \<Longrightarrow> rest = [] \<or> hd rest \<noteq> LF \<Longrightarrow>
     splitLines (body @ [CR] @ rest) = (body @ [CR]) # splitLines rest"
  by (auto simp: splitLines_def splitLines_from_body)

lemma splitLines_LF:
  "\<forall>c\<in>set body. \<not> endOfRecord c \<Longrightarrow>
     splitLines (body @ [LF] @ rest) = (body @ [LF]) # splitLines rest"
  by (simp add: splitLines_def splitLines_from_body)

lemma replaceCRLF_cases:
  assumes "\<forall>c\<in>set body. \<not> endOfRecord c"
  shows "replaceCRLF (body @ [CR, LF]) = body @ [LF]"
    and "replaceCRLF (body @ [CR]) = body @ [CR]"
    and "replaceCRLF (body @ [LF]) = body @ [LF]"
proof -
  show "replaceCRLF (body @ [CR, LF]) = body @ [LF]" by (simp add: replaceCRLF_def)
  show "replaceCRLF (body @ [CR]) = body @ [CR]"
    by (cases body rule: rev_cases) (simp_all add: replaceCRLF_def)
  show "replaceCRLF (body @ [LF]) = body @ [LF]"
    using assms by (cases body rule: rev_cases) (auto simp: replaceCRLF_def endOfRecord_def)
qed

lemma splitLines_from_shape:
  "\<forall>c\<in>set acc. \<not> endOfRecord c \<Longrightarrow> line \<in> set (splitLines_from acc s) \<Longrightarrow>
     \<exists>body. (\<forall>c\<in>set body. \<not> endOfRecord c)
       \<and> (line = body @ [CR, LF] \<or> line = body @ [CR] \<or> line = body @ [LF])"
proof (induction acc s rule: splitLines_from.induct)
  case (1 acc)
  then show ?case by simp
next
  case (2 acc c s)
  show ?case
  proof (cases "c = CR \<and> s \<noteq> [] \<and> hd s = LF")
    case True
    with "2.prems" have "line = acc @ [CR, LF] \<or> line \<in> set (splitLines_from [] (tl s))" by auto
    then show ?thesis
    proof
      assume "line = acc @ [CR, LF]"
      with "2.prems"(1) show ?thesis by blast
    next
      assume "line \<in> set (splitLines_from [] (tl s))"
      with "2.IH"(1) [OF True] show ?thesis by simp
    qed
  next
    case nocrlf: False
    show ?thesis
    proof (cases "c = CR \<or> c = LF")
      case True
      with nocrlf "2.prems" have "line = acc @ [c] \<or> line \<in> set (splitLines_from [] s)"
        by (auto split: if_splits)
      then show ?thesis
      proof
        assume "line = acc @ [c]"
        with True "2.prems"(1) show ?thesis by blast
      next
        assume "line \<in> set (splitLines_from [] s)"
        with "2.IH"(2) [OF nocrlf True] show ?thesis by simp
      qed
    next
      case False
      with nocrlf "2.prems" have "line \<in> set (splitLines_from (acc @ [c]) s)"
        by (auto split: if_splits)
      moreover from False "2.prems"(1) have "\<forall>c\<in>set (acc @ [c]). \<not> endOfRecord c"
        by (auto simp: endOfRecord_def)
      ultimately show ?thesis using "2.IH"(3) [OF nocrlf False] by blast
    qed
  qed
qed

lemma concat_splitLines_from:
  "s \<noteq> [] \<Longrightarrow> last s = LF \<Longrightarrow> concat (splitLines_from acc s) = acc @ s"
proof (induction acc s rule: splitLines_from.induct)
  case (1 acc)
  then show ?case by simp
next
  case (2 acc c s)
  show ?case
  proof (cases "c = CR \<and> s \<noteq> [] \<and> hd s = LF")
    case True
    then obtain s' where s: "s = LF # s'" by (cases s) auto
    show ?thesis
    proof (cases "s' = []")
      case True
      with s \<open>c = CR \<and> s \<noteq> [] \<and> hd s = LF\<close> show ?thesis by simp
    next
      case False
      with "2.prems" s have "last s' = LF" by simp
      with "2.IH"(1) [OF True] False s True show ?thesis by simp
    qed
  next
    case nocrlf: False
    show ?thesis
    proof (cases "c = CR \<or> c = LF")
      case True
      show ?thesis
      proof (cases "s = []")
        case True
        with nocrlf \<open>c = CR \<or> c = LF\<close> show ?thesis by simp
      next
        case False
        with "2.prems" have "last s = LF" by simp
        with "2.IH"(2) [OF nocrlf True False] nocrlf True show ?thesis by auto
      qed
    next
      case False
      with "2.prems" have "s \<noteq> []" "last s = LF" by (auto split: if_splits)
      with "2.IH"(3) [OF nocrlf False] nocrlf False show ?thesis by simp
    qed
  qed
qed

lemma terminated_ends:
  "terminated source = [] \<or> last (terminated source) = LF"
  by (simp add: terminated_def)

lemma concat_splitLines_terminated:
  "concat (splitLines (terminated source)) = terminated source"
proof (cases "terminated source = []")
  case True
  then show ?thesis by (simp add: splitLines_def)
next
  case False
  with terminated_ends [of source] have "last (terminated source) = LF" by simp
  from concat_splitLines_from [OF False this, of "[]"] show ?thesis by (simp add: splitLines_def)
qed

lemma preparedLines_shape:
  assumes "line \<in> set (preparedLines source)"
  shows "\<exists>body e. line = body @ [e] \<and> endOfRecord e \<and> (\<forall>c\<in>set body. \<not> endOfRecord c)"
proof -
  from assms obtain l where l: "l \<in> set (splitLines_from [] (terminated source))"
    and line: "line = replaceCRLF l"
    by (auto simp: preparedLines_def splitLines_def)
  from splitLines_from_shape [OF _ l] obtain body where
    body: "\<forall>c\<in>set body. \<not> endOfRecord c"
    and "l = body @ [CR, LF] \<or> l = body @ [CR] \<or> l = body @ [LF]"
    by auto
  with line replaceCRLF_cases [OF body]
  have "line = body @ [LF] \<or> line = body @ [CR]" by auto
  with body show ?thesis by (auto simp: endOfRecord_def)
qed

lemma preparedLines_nonempty: "[] \<notin> set (preparedLines source)"
  using preparedLines_shape [of "[]" source] by auto

text \<open>
  The claim C5 as it was stated fails: the constructor replaces only \<open>\r\n\<close> at the end
  of a line. In the source \<open>a\rb\<close> the first line is terminated by a lone carriage
  return, and the line the parser consumes ends with that carriage return, not with
  the newline character.
\<close>

theorem C5_counterexample:
  "preparedLines (''a'' @ [CR] @ ''b'') = [''a'' @ [CR], ''b'' @ [LF]]
   \<and> last (hd (preparedLines (''a'' @ [CR] @ ''b''))) \<noteq> LF"
  by (simp add: preparedLines_def terminated_def splitLines_def replaceCRLF_def)

text \<open>
  C5 (amended). For every source: a trailing newline is appended if and only if the
  source is non-empty and does not already end with the newline character; the
  result is cut into lines after each occurrence of \<open>\r\n\<close>, \<open>\r\<close> or \<open>\n\<close> (a
  \<open>\r\n\<close> counting as one terminator), nothing being lost; a terminator \<open>\r\n\<close> is
  replaced by the single newline character, while a lone \<open>\r\<close> and a lone \<open>\n\<close> stay
  as they are; so each line the parser consumes consists of characters that are no
  end of record, followed by exactly one end-of-record character, \<open>\n\<close> or \<open>\r\<close>.
\<close>

theorem C5_input_preparation:
  "terminated source = (if source \<noteq> [] \<and> last source \<noteq> LF then source @ [LF] else source)
   \<and> concat (splitLines (terminated source)) = terminated source
   \<and> ((\<forall>c\<in>set body. \<not> endOfRecord c) \<longrightarrow>
        splitLines (body @ [CR, LF] @ rest) = (body @ [CR, LF]) # splitLines rest
        \<and> (rest = [] \<or> hd rest \<noteq> LF \<longrightarrow>
             splitLines (body @ [CR] @ rest) = (body @ [CR]) # splitLines rest)
        \<and> splitLines (body @ [LF] @ rest) = (body @ [LF]) # splitLines rest
        \<and> splitLines body = []
        \<and> replaceCRLF (body @ [CR, LF]) = body @ [LF]
        \<and> replaceCRLF (body @ [CR]) = body @ [CR]
        \<and> replaceCRLF (body @ [LF]) = body @ [LF])
   \<and> preparedLines source = map replaceCRLF (splitLines (terminated source))
   \<and> (\<forall>line\<in>set (preparedLines source).
        \<exists>body e. line = body @ [e] \<and> endOfRecord e \<and> (\<forall>c\<in>set body. \<not> endOfRecord c))"
proof (intro conjI impI ballI)
  show "terminated source = (if source \<noteq> [] \<and> last source \<noteq> LF then source @ [LF] else source)"
    by (simp add: terminated_def)
  show "concat (splitLines (terminated source)) = terminated source"
    by (rule concat_splitLines_terminated)
  show "preparedLines source = map replaceCRLF (splitLines (terminated source))"
    by (simp add: preparedLines_def)
next
  fix line
  assume "line \<in> set (preparedLines source)"
  then show "\<exists>body e. line = body @ [e] \<and> endOfRecord e \<and> (\<forall>c\<in>set body. \<not> endOfRecord c)"
    by (rule preparedLines_shape)
next
  assume body: "\<forall>c\<in>set body. \<not> endOfRecord c"
  show "splitLines (body @ [CR, LF] @ rest) = (body @ [CR, LF]) # splitLines rest"
    by (rule splitLines_CRLF [OF body])
  show "splitLines (body @ [LF] @ rest) = (body @ [LF]) # splitLines rest"
    by (rule splitLines_LF [OF body])
  show "splitLines body = []"
    using splitLines_from_body [OF body, of "[]" "[]"] by (simp add: splitLines_def)
  show "replaceCRLF (body @ [CR, LF]) = body @ [LF]" "replaceCRLF (body @ [CR]) = body @ [CR]"
    "replaceCRLF (body @ [LF]) = body @ [LF]"
    by (rule replaceCRLF_cases [OF body])+
  assume "rest = [] \<or> hd rest \<noteq> LF"
  then show "splitLines (body @ [CR] @ rest) = (body @ [CR]) # splitLines rest"
    by (rule splitLines_CR [OF body])
qed

theorem C5_input_preparation_witness:
  "terminated (''a'' @ [CR, LF] @ ''b'' @ [CR] @ ''c'') = ''a'' @ [CR, LF] @ ''b'' @ [CR] @ ''c'' @ [LF]
   \<and> terminated (''a'' @ [LF]) = ''a'' @ [LF]
   \<and> terminated [] = []
   \<and> splitLines (''a'' @ [CR, LF] @ ''b'' @ [CR] @ ''c'' @ [LF])
       = [''a'' @ [CR, LF], ''b'' @ [CR], ''c'' @ [LF]]
   \<and> replaceCRLF (''a'' @ [CR, LF]) = ''a'' @ [LF]
   \<and> replaceCRLF (''b'' @ [CR]) = ''b'' @ [CR]
   \<and> preparedLines (''a'' @ [CR, LF] @ ''b'' @ [CR] @ ''c'') = [''a'' @ [LF], ''b'' @ [CR], ''c'' @ [LF]]"
  using C5_input_preparation [of "''a'' @ [CR, LF] @ ''b'' @ [CR] @ ''c''" "''a''"
      "''b'' @ [CR] @ ''c'' @ [LF]"]
    C5_input_preparation [of "''a'' @ [LF]" "''b''" "''c'' @ [LF]"]
    C5_input_preparation [of "[]" "''c''" "[]"]
  by (simp add: endOfRecord_def splitLines_def [of "[]"] preparedLines_def terminated_def)

subsection \<open>The line counter\<close>

lemma nextLoop_lineNum:
  "[] \<notin> set (pending (lines r)) \<Longrightarrow> nextLoop Number r = (res, r') \<Longrightarrow>
     lineNum r' + length (pending (lines r')) = lineNum r + length (pending (lines r))
     \<and> set (pending (lines r')) \<subseteq> set (pending (lines r))"
proof (induction Number r arbitrary: res r' rule: nextLoop.induct)
  case (1 Number r)
  obtain result ls' where n: "HasNextIterator_next (lines r) = (result, ls')"
    by (cases "HasNextIterator_next (lines r)")
  note np = next_pending [OF n]
  show ?case
  proof (cases "result = None \<or> result = Some []")
    case True
    with np "1.prems"(1) have e: "result = None" "pending (lines r) = []" "pending ls' = []"
      by (cases "pending (lines r)"; auto)+
    from "1.prems"(2) e show ?thesis
      unfolding nextLoop_exhausted [OF n True]
      by (auto simp: returnRow_def split: if_splits prod.splits completion.splits
            dest!: saveField_lines)
  next
    case False
    then obtain line where line: "result = Some line" "line \<noteq> []" by (cases result) auto
    with np have pl: "pending (lines r) = line # pending ls'"
      by (cases "pending (lines r)") simp_all
    obtain z r1 where p: "processChars Number (newHasNextIterator (the result))
        (r\<lparr>lines := ls', lineNum := lineNum r + 1\<rparr>) = (z, r1)"
      by (cases "processChars Number (newHasNextIterator (the result))
        (r\<lparr>lines := ls', lineNum := lineNum r + 1\<rparr>)")
    from processChars_pending [OF p]
    have keep: "pending (lines r1) = pending ls'" "lineNum r1 = lineNum r + 1" by simp_all
    note unfold = nextLoop_line [OF n [unfolded line(1)] line(2), of Number]
    from p line have p': "processChars Number (newHasNextIterator line)
        (r\<lparr>lines := ls', lineNum := lineNum r + 1\<rparr>) = (z, r1)" by simp
    show ?thesis
    proof (cases z)
      case (Throw e)
      with "1.prems"(2) keep pl show ?thesis unfolding unfold p' by auto
    next
      case (Normal u)
      show ?thesis
      proof (cases "state r1 \<noteq> START_RECORD")
        case True
        with Normal "1.prems"(2) have "nextLoop Number r1 = (res, r')"
          unfolding unfold p' by simp
        moreover from "1.prems"(1) keep pl have "[] \<notin> set (pending (lines r1))" by simp
        ultimately show ?thesis
          using "1.IH" [OF n [symmetric] False p [symmetric] Normal True] keep pl by auto
      next
        case False
        with Normal "1.prems"(2) keep pl show ?thesis
          unfolding unfold p' by (auto simp: returnRow_def)
      qed
    qed
  qed
qed

lemma nextLoop_mono:
  "nextLoop Number r = (res, r') \<Longrightarrow> lineNum r \<le> lineNum r'"
proof (induction Number r arbitrary: res r' rule: nextLoop.induct)
  case (1 Number r)
  obtain result ls' where n: "HasNextIterator_next (lines r) = (result, ls')"
    by (cases "HasNextIterator_next (lines r)")
  show ?case
  proof (cases "result = None \<or> result = Some []")
    case True
    from "1.prems" show ?thesis
      unfolding nextLoop_exhausted [OF n True]
      by (auto simp: returnRow_def split: if_splits prod.splits completion.splits
            dest!: saveField_lines)
  next
    case False
    then obtain line where line: "result = Some line" "line \<noteq> []" by (cases result) auto
    obtain z r1 where p: "processChars Number (newHasNextIterator (the result))
        (r\<lparr>lines := ls', lineNum := lineNum r + 1\<rparr>) = (z, r1)"
      by (cases "processChars Number (newHasNextIterator (the result))
        (r\<lparr>lines := ls', lineNum := lineNum r + 1\<rparr>)")
    from processChars_pending [OF p] have keep: "lineNum r1 = lineNum r + 1" by simp
    note unfold = nextLoop_line [OF n [unfolded line(1)] line(2), of Number]
    from p line have p': "processChars Number (newHasNextIterator line)
        (r\<lparr>lines := ls', lineNum := lineNum r + 1\<rparr>) = (z, r1)" by simp
    show ?thesis
    proof (cases z)
      case (Throw e)
      with "1.prems" keep show ?thesis unfolding unfold p' by auto
    next
      case (Normal u)
      show ?thesis
      proof (cases "state r1 \<noteq> START_RECORD")
        case True
        with Normal "1.prems" have "nextLoop Number r1 = (res, r')"
          unfolding unfold p' by simp
        from "1.IH" [OF n [symmetric] False p [symmetric] Normal True this] keep
        show ?thesis by simp
      next
        case False
        with Normal "1.prems" keep show ?thesis
          unfolding unfold p' by (auto simp: returnRow_def)
      qed
    qed
  qed
qed

lemma Reader_next_mono: "lineNum r \<le> lineNum (snd (Reader_next Number r))"
  using nextLoop_mono [of Number "Reader_reset r" "fst (Reader_next Number r)"
      "snd (Reader_next Number r)"]
  by (simp add: Reader_next_def Reader_reset_def)

lemma Reader_next_lineNum:
  assumes "[] \<notin> set (pending (lines r))"
  shows "lineNum (snd (Reader_next Number r)) + length (pending (lines (snd (Reader_next Number r))))
           = lineNum r + length (pending (lines r))"
    and "[] \<notin> set (pending (lines (snd (Reader_next Number r))))"
  using assms nextLoop_lineNum [of "Reader_reset r" Number "fst (Reader_next Number r)"
      "snd (Reader_next Number r)"]
  by (auto simp: Reader_next_def Reader_reset_def)

lemma afterNext_Suc:
  "afterNext Number (Suc n) r = snd (Reader_next Number (afterNext Number n r))"
  by (induction n arbitrary: r) simp_all

lemma afterNext_lineNum:
  "[] \<notin> set (pending (lines r)) \<Longrightarrow>
     lineNum (afterNext Number n r) + length (pending (lines (afterNext Number n r)))
       = lineNum r + length (pending (lines r))
     \<and> [] \<notin> set (pending (lines (afterNext Number n r)))"
proof (induction n)
  case 0
  then show ?case by simp
next
  case (Suc n)
  then have inv: "[] \<notin> set (pending (lines (afterNext Number n r)))" by simp
  from Reader_next_lineNum [OF inv, of Number] Suc show ?case
    by (simp only: afterNext_Suc) simp
qed

text \<open>
  The claim C6 as it was stated fails in its example: over the three-line source the
  line counter is 1 after the first pull, not 3.
\<close>

theorem C6_counterexample:
  "lineNum (afterNext exampleNumber 1 (newReader threeLines excel)) = 1
   \<and> lineNum (afterNext exampleNumber 1 (newReader threeLines excel)) \<noteq> 3"
  by (simp add: threeLines_def run_simps)

text \<open>
  C6 (amended). The line counter of a new Reader is 0. After any number \<open>n\<close> of
  \<open>next()\<close> calls, whatever they returned or threw, it equals the number of physical
  lines consumed so far (the lines prepared less the lines still to deliver): one
  increment per line, not per row. No call of \<open>next()\<close>, on any reader, decreases it.
  For the Reader over \<open>line,1\r\nline,2\r\nline,3\<close> the counter is 0 at first, then 1, 2
  and 3 after the first, second and third pull, and still 3 after the final
  (exhausted) pull; a single pull of a row whose quoted field spans two lines takes it
  from 0 to 2.
\<close>

theorem C6_line_counter:
  fixes Number :: "string \<Rightarrow> 'n option" and r :: "'n Reader"
  shows "lineNum (newReader source d :: 'n Reader) = 0
   \<and> lineNum (afterNext Number n (newReader source d))
        + length (pending (lines (afterNext Number n (newReader source d))))
       = length (preparedLines source)
   \<and> lineNum r \<le> lineNum (snd (Reader_next Number r))
   \<and> lineNum (afterNext Number n r) \<le> lineNum (afterNext Number (Suc n) r)
   \<and> map (\<lambda>k. lineNum (afterNext Number k (newReader threeLines excel))) [0, 1, 2, 3, 4]
       = [0, 1, 2, 3, 3]
   \<and> Reader_next Number (newReader ([DQUOTE] @ ''a'' @ [LF] @ ''b'' @ [DQUOTE]) excel)
       = (Normal (IteratorResult [Str (''a'' @ [LF] @ ''b'')] False),
          (newReader [] excel)\<lparr>lineNum := 2\<rparr>)"
proof (intro conjI)
  let ?r0 = "newReader source d :: 'n Reader"
  have inv: "[] \<notin> set (pending (lines ?r0))"
    using preparedLines_nonempty [of source] by (simp add: newReader_def)
  show "lineNum ?r0 = 0" by (simp add: newReader_def)
  from afterNext_lineNum [OF inv, of Number n]
  show "lineNum (afterNext Number n ?r0) + length (pending (lines (afterNext Number n ?r0)))
       = length (preparedLines source)"
    by (simp add: newReader_def)
  show "lineNum r \<le> lineNum (snd (Reader_next Number r))" by (rule Reader_next_mono)
  show "lineNum (afterNext Number n r) \<le> lineNum (afterNext Number (Suc n) r)"
    by (simp only: afterNext_Suc Reader_next_mono)
  show "map (\<lambda>k. lineNum (afterNext Number k (newReader threeLines excel))) [0, 1, 2, 3, 4]
       = [0, 1, 2, 3, 3]"
    by (simp add: threeLines_def run_simps eval_nat_numeral)
  show "Reader_next Number (newReader ([DQUOTE] @ ''a'' @ [LF] @ ''b'' @ [DQUOTE]) excel)
       = (Normal (IteratorResult [Str (''a'' @ [LF] @ ''b'')] False),
          (newReader [] excel)\<lparr>lineNum := 2\<rparr>)"
    by (simp add: run_simps)
qed

subsection \<open>NUL bytes\<close>











subsection \<open>Records\<close>

lemma zip'_zip: "length a = length b \<Longrightarrow> zip' a b = zip a (map Some b)"
  by (auto simp: zip'_def intro!: nth_equalityI)

lemma fromEntries_snoc:
  "fromEntries S (es @ [(k, v)]) = (fromEntries S es)(propertyKey S k \<mapsto> v)"
  by (simp add: fromEntries_def)

lemma dom_fromEntries: "dom (fromEntries S es) = propertyKey S ` fst ` set es"
proof (induction es rule: rev_induct)
  case Nil
  show ?case by (simp add: fromEntries_def)
next
  case (snoc e es)
  obtain k v where e: "e = (k, v)" by (cases e)
  have "dom (fromEntries S (es @ [e])) = insert (propertyKey S k) (dom (fromEntries S es))"
    unfolding e fromEntries_snoc by simp
  with snoc show ?case by (simp add: e)
qed

lemma fromEntries_nth:
  "length ks = length vs \<Longrightarrow> distinct (map (propertyKey S) ks) \<Longrightarrow> i < length ks \<Longrightarrow>
     fromEntries S (zip ks vs) (propertyKey S (ks ! i)) = Some (vs ! i)"
proof (induction ks arbitrary: vs rule: rev_induct)
  case Nil
  then show ?case by simp
next
  case (snoc k ks)
  from snoc.prems(1) obtain vs' v where vs: "vs = vs' @ [v]" "length ks = length vs'"
    by (cases vs rule: rev_cases) auto
  then have z: "zip (ks @ [k]) vs = zip ks vs' @ [(k, v)]" by simp
  show ?case
  proof (cases "i < length ks")
    case True
    then have "propertyKey S (ks ! i) \<in> propertyKey S ` set ks" by simp
    with snoc.prems(2) have "propertyKey S (ks ! i) \<noteq> propertyKey S k" by auto
    with True snoc.IH [OF vs(2) _ True] snoc.prems(2) vs show ?thesis
      by (simp add: z fromEntries_snoc nth_append)
  next
    case False
    with snoc.prems(3) have "i = length ks" by simp
    with vs show ?thesis by (simp add: z fromEntries_snoc nth_append)
  qed
qed


lemma nextLoop_done:
  "[] \<notin> set (pending (lines r)) \<Longrightarrow> nextLoop Number r = (Normal (IteratorResult v True), r') \<Longrightarrow>
     v = [] \<and> pending (lines r') = [] \<and> field r' = []"
proof (induction Number r arbitrary: v r' rule: nextLoop.induct)
  case (1 Number r)
  obtain result ls' where n: "HasNextIterator_next (lines r) = (result, ls')"
    by (cases "HasNextIterator_next (lines r)")
  note np = next_pending [OF n]
  show ?case
  proof (cases "result = None \<or> result = Some []")
    case True
    with np "1.prems"(1) have e: "result = None" "pending (lines r) = []" "pending ls' = []"
      by (cases "pending (lines r)"; auto)+
    from "1.prems"(2) e show ?thesis
      unfolding nextLoop_exhausted [OF n True]
      by (auto simp: returnRow_def split: if_splits prod.splits completion.splits)
  next
    case False
    then obtain line where line: "result = Some line" "line \<noteq> []" by (cases result) auto
    with np have pl: "pending (lines r) = line # pending ls'"
      by (cases "pending (lines r)") simp_all
    obtain z r1 where p: "processChars Number (newHasNextIterator (the result))
        (r\<lparr>lines := ls', lineNum := lineNum r + 1\<rparr>) = (z, r1)"
      by (cases "processChars Number (newHasNextIterator (the result))
        (r\<lparr>lines := ls', lineNum := lineNum r + 1\<rparr>)")
    from processChars_pending [OF p] have keep: "pending (lines r1) = pending ls'" by simp
    note unfold = nextLoop_line [OF n [unfolded line(1)] line(2), of Number]
    from p line have p': "processChars Number (newHasNextIterator line)
        (r\<lparr>lines := ls', lineNum := lineNum r + 1\<rparr>) = (z, r1)" by simp
    show ?thesis
    proof (cases z)
      case (Throw e)
      with "1.prems"(2) show ?thesis unfolding unfold p' by simp
    next
      case (Normal u)
      show ?thesis
      proof (cases "state r1 \<noteq> START_RECORD")
        case True
        with Normal "1.prems"(2) have "nextLoop Number r1 = (Normal (IteratorResult v True), r')"
          unfolding unfold p' by simp
        moreover from "1.prems"(1) keep pl have "[] \<notin> set (pending (lines r1))" by simp
        ultimately show ?thesis
          using "1.IH" [OF n [symmetric] False p [symmetric] Normal True] by blast
      next
        case False
        with Normal "1.prems"(2) show ?thesis
          unfolding unfold p' by (auto simp: returnRow_def)
      qed
    qed
  qed
qed

lemma Reader_rows_after_done:
  assumes "[] \<notin> set (pending (lines r))"
    and "Reader_next Number r = (Normal (IteratorResult v True), r')"
  shows "Reader_rows Number r' = ([], None)"
proof -
  from nextLoop_done [of "Reader_reset r" Number v r'] assms
  have "pending (lines r') = []" "field r' = []"
    by (simp_all add: Reader_next_def Reader_reset_def)
  then show ?thesis
    by (subst Reader_rows.simps) (simp add: Reader_next_done)
qed

lemma Reader_rows_Cons:
  "Reader_rows Number r = (h # rows, err) \<Longrightarrow>
     \<exists>r'. Reader_next Number r = (Normal (IteratorResult h False), r')
       \<and> Reader_rows Number r' = (rows, err)"
  by (subst (asm) Reader_rows.simps)
    (auto split: prod.splits completion.splits IteratorResult.splits if_splits)

lemma Reader_rows_Nil:
  "Reader_rows Number r = ([], err) \<Longrightarrow>
     (\<exists>e r'. Reader_next Number r = (Throw e, r') \<and> err = Some e)
     \<or> (\<exists>v r'. Reader_next Number r = (Normal (IteratorResult v True), r') \<and> err = None)"
  by (subst (asm) Reader_rows.simps)
    (auto split: prod.splits completion.splits IteratorResult.splits if_splits)

lemma recordOfRow_entries:
  "recordOfRow S opts headers row =
     (if length headers < length row then
        fromEntries S (zip (map Some headers @ [map_option Str (restKey opts)])
          (map (Some \<circ> Single) (take (length headers) row) @ [Some (Rest (drop (length headers) row))]))
      else
        fromEntries S (zip (map Some headers)
          (map (Some \<circ> Single)
             (row @ replicate (length headers - length row)
                (case restVal opts of None \<Rightarrow> Str [] | Some v \<Rightarrow> v)))))"
  by (simp add: recordOfRow_def Let_def zip'_zip)

lemma recordOfRow_rest:
  assumes "length headers < length row"
  shows "recordOfRow S opts headers row (propertyKey S (map_option Str (restKey opts)))
           = Some (Some (Rest (drop (length headers) row)))"
    and "dom (recordOfRow S opts headers row)
           = insert (propertyKey S (map_option Str (restKey opts)))
               ((\<lambda>h. propertyKey S (Some h)) ` set headers)"
proof -
  let ?ks = "map Some headers" and ?vs = "map (Some \<circ> Single) (take (length headers) row)"
  have e: "recordOfRow S opts headers row
      = (fromEntries S (zip ?ks ?vs))
          (propertyKey S (map_option Str (restKey opts)) \<mapsto> Some (Rest (drop (length headers) row)))"
    using assms by (simp add: recordOfRow_entries fromEntries_snoc)
  show "recordOfRow S opts headers row (propertyKey S (map_option Str (restKey opts)))
           = Some (Some (Rest (drop (length headers) row)))"
    by (simp add: e)
  have "length ?ks = length ?vs" using assms by simp
  from map_fst_zip [OF this] have "fst ` set (zip ?ks ?vs) = set ?ks"
    by (metis set_map)
  then show "dom (recordOfRow S opts headers row)
           = insert (propertyKey S (map_option Str (restKey opts)))
               ((\<lambda>h. propertyKey S (Some h)) ` set headers)"
    by (simp add: e dom_fromEntries image_image)
qed

lemma recordOfRow_short_dom:
  assumes "length row \<le> length headers"
  shows "dom (recordOfRow S opts headers row) = (\<lambda>h. propertyKey S (Some h)) ` set headers"
proof -
  let ?ks = "map Some headers"
  let ?vs = "map (Some \<circ> Single) (row @ replicate (length headers - length row)
                (case restVal opts of None \<Rightarrow> Str [] | Some v \<Rightarrow> v))"
  have "length ?ks = length ?vs" using assms by simp
  from map_fst_zip [OF this] have "fst ` set (zip ?ks ?vs) = set ?ks" by (metis set_map)
  with assms show ?thesis
    by (simp add: recordOfRow_entries dom_fromEntries image_image)
qed

lemma recordOfRow_header:
  assumes d: "distinct (map (\<lambda>h. propertyKey S (Some h)) headers)"
    and i: "i < length headers"
    and k: "length headers < length row \<longrightarrow>
        propertyKey S (Some (headers ! i)) \<noteq> propertyKey S (map_option Str (restKey opts))"
  shows "recordOfRow S opts headers row (propertyKey S (Some (headers ! i)))
     = Some (Some (Single (if i < length row then row ! i
                           else (case restVal opts of None \<Rightarrow> Str [] | Some v \<Rightarrow> v))))"
proof -
  let ?ks = "map Some headers"
  have dk: "distinct (map (propertyKey S) ?ks)" using d by (simp add: comp_def)
  have ik: "i < length ?ks" "?ks ! i = Some (headers ! i)" using i by simp_all
  show ?thesis
  proof (cases "length headers < length row")
    case True
    let ?vs = "map (Some \<circ> Single) (take (length headers) row)"
    have len: "length ?ks = length ?vs" using True by simp
    from fromEntries_nth [OF len dk ik(1)] ik(2) i True
    have "fromEntries S (zip ?ks ?vs) (propertyKey S (Some (headers ! i)))
        = Some (Some (Single (row ! i)))" by simp
    with True k i show ?thesis
      by (simp add: recordOfRow_entries fromEntries_snoc)
  next
    case False
    let ?vs = "map (Some \<circ> Single) (row @ replicate (length headers - length row)
                (case restVal opts of None \<Rightarrow> Str [] | Some v \<Rightarrow> v))"
    have len: "length ?ks = length ?vs" using False by simp
    from fromEntries_nth [OF len dk ik(1)] ik(2) i False
    have "fromEntries S (zip ?ks ?vs) (propertyKey S (Some (headers ! i)))
        = Some (Some (Single (if i < length row then row ! i
                           else (case restVal opts of None \<Rightarrow> Str [] | Some v \<Rightarrow> v))))"
      by (simp add: nth_append)
    with False show ?thesis by (simp add: recordOfRow_entries)
  qed
qed

lemma recordReader_fields:
  "opts_fields opts = Some fs \<Longrightarrow>
     recordReader Number S source opts
       = recordsOf S opts (map Str fs) (reader Number source (opts_dialect opts))"
  by (simp add: recordReader_def reader_def)

lemma recordReader_first_row:
  assumes "opts_fields opts = None"
    and "reader Number source (opts_dialect opts) = (h # rows, err)"
  shows "recordReader Number S source opts = recordsOf S opts h (rows, err)"
proof -
  from assms(2) have "Reader_rows Number
      (newReader source (case opts_dialect opts of None \<Rightarrow> excel | Some d \<Rightarrow> d)) = (h # rows, err)"
    by (simp add: reader_def)
  from Reader_rows_Cons [OF this] obtain r' where
    "Reader_next Number (newReader source (case opts_dialect opts of None \<Rightarrow> excel | Some d \<Rightarrow> d))
       = (Normal (IteratorResult h False), r')"
    "Reader_rows Number r' = (rows, err)" by blast
  with assms(1) show ?thesis by (simp add: recordReader_def)
qed

lemma recordReader_no_row:
  assumes "opts_fields opts = None"
    and "reader Number source (opts_dialect opts) = ([], err)"
  shows "recordReader Number S source opts = ([], err)"
proof -
  let ?r = "newReader source (case opts_dialect opts of None \<Rightarrow> excel | Some d \<Rightarrow> d) :: 'a Reader"
  have inv: "[] \<notin> set (pending (lines ?r))"
    using preparedLines_nonempty [of source] by (simp add: newReader_def)
  from assms(2) have "Reader_rows Number ?r = ([], err)" by (simp add: reader_def)
  from Reader_rows_Nil [OF this] show ?thesis
  proof (elim disjE exE conjE)
    fix e r'
    assume "Reader_next Number ?r = (Throw e, r')" "err = Some e"
    with assms(1) show ?thesis by (simp add: recordReader_def)
  next
    fix v r'
    assume n: "Reader_next Number ?r = (Normal (IteratorResult v True), r')" and "err = None"
    with assms(1) Reader_rows_after_done [OF inv n] show ?thesis
      by (simp add: recordReader_def recordsOf_def)
  qed
qed

text \<open>
  The claim C8 as it was stated fails where two headers have the same name or a
  header has the name of the rest-key: a record holds one value per name, and the
  last one assigned stays. With the header \<open>a,a,b\<close>, the rest-key \<open>b\<close> and the row
  \<open>1,2,3,4\<close>, the record maps \<open>a\<close> to \<open>2\<close> and \<open>b\<close> to the array \<open>[4]\<close>: the values
  \<open>1\<close> and \<open>3\<close> are under no header. With the header \<open>a,a\<close> the row \<open>1,2\<close> maps \<open>a\<close>
  to \<open>2\<close>.
\<close>

theorem C8_counterexample:
  "reader exampleNumber duplicateSource None
     = ([[Str ''a'', Str ''a'', Str ''b''], [Str ''1'', Str ''2'', Str ''3'', Str ''4'']], None)
   \<and> snd (recordReader exampleNumber exampleNumberToString duplicateSource
          (defaultOpts\<lparr>restKey := Some ''b''\<rparr>)) = None
   \<and> map (\<lambda>record. (record ''a'', record ''b''))
        (fst (recordReader exampleNumber exampleNumberToString duplicateSource
               (defaultOpts\<lparr>restKey := Some ''b''\<rparr>)))
     = [(Some (Some (Single (Str ''2''))), Some (Some (Rest [Str ''4''])))]
   \<and> recordOfRow exampleNumberToString defaultOpts [Str ''a'', Str ''a''] [Str ''1'', Str ''2''] ''a''
     = Some (Some (Single (Str ''2'')))"
proof -
  have rd: "reader exampleNumber duplicateSource None
     = ([[Str ''a'', Str ''a'', Str ''b''], [Str ''1'', Str ''2'', Str ''3'', Str ''4'']], None)"
    by (simp add: duplicateSource_def run_simps)
  have rr: "recordReader exampleNumber exampleNumberToString duplicateSource
          (defaultOpts\<lparr>restKey := Some ''b''\<rparr>)
     = ([recordOfRow exampleNumberToString (defaultOpts\<lparr>restKey := Some ''b''\<rparr>)
           [Str ''a'', Str ''a'', Str ''b''] [Str ''1'', Str ''2'', Str ''3'', Str ''4'']], None)"
    using recordReader_first_row [of "defaultOpts\<lparr>restKey := Some ''b''\<rparr>" exampleNumber
        duplicateSource "[Str ''a'', Str ''a'', Str ''b'']"
        "[[Str ''1'', Str ''2'', Str ''3'', Str ''4'']]" None exampleNumberToString] rd
    by (simp add: defaultOpts_def recordsOf_def)
  show ?thesis
    unfolding rd rr
    by (simp add: recordOfRow_entries fromEntries_def propertyKey_def defaultOpts_def)
qed

text \<open>
  C8 (amended). \<open>recordReader\<close> takes the header names from the option \<open>fields\<close> when
  a non-empty list is given, and then maps every row the reader delivers; when the
  option is omitted the first row delivered is the header and the rows after it are
  mapped (no row at all gives no record). An empty row yields no record; every other
  row yields one, built from the pairs of header and value by position, in order, a
  later pair replacing an earlier one of the same name. For a row of \<open>r\<close> values
  against \<open>h\<close> headers: if \<open>r > h\<close> the surplus values, from position \<open>h\<close> on, are an
  array under the rest-key, whose default is the name \<open>undefined\<close>; when the header
  names are distinct (and, if \<open>r > h\<close>, the header is not named as the rest-key), the
  header at a position below \<open>r\<close> maps to the value at that position, and if \<open>r < h\<close>
  each header at a position from \<open>r\<close> on maps to the rest-value, whose default is the
  empty string; and the record has no property but the header names and, if \<open>r > h\<close>,
  the rest-key.
\<close>

theorem C8_recordReader:
  "(opts_fields opts = Some fs \<and> fs \<noteq> [] \<longrightarrow>
      recordReader Number S source opts
        = recordsOf S opts (map Str fs) (reader Number source (opts_dialect opts)))
   \<and> (opts_fields opts = None \<and> reader Number source (opts_dialect opts) = (h # rows, err) \<longrightarrow>
      recordReader Number S source opts = recordsOf S opts h (rows, err))
   \<and> (opts_fields opts = None \<and> reader Number source (opts_dialect opts) = ([], err) \<longrightarrow>
      recordReader Number S source opts = ([], err))
   \<and> recordsOf S opts headers (rows, err)
       = (map (recordOfRow S opts headers) (filter (\<lambda>row. row \<noteq> []) rows), err)
   \<and> (length headers < length row \<longrightarrow>
      recordOfRow S opts headers row (propertyKey S (map_option Str (restKey opts)))
        = Some (Some (Rest (drop (length headers) row)))
      \<and> dom (recordOfRow S opts headers row)
        = insert (propertyKey S (map_option Str (restKey opts)))
            ((\<lambda>h. propertyKey S (Some h)) ` set headers))
   \<and> (length row \<le> length headers \<longrightarrow>
      dom (recordOfRow S opts headers row) = (\<lambda>h. propertyKey S (Some h)) ` set headers)
   \<and> (distinct (map (\<lambda>h. propertyKey S (Some h)) headers) \<and> i < length headers
      \<and> (length headers < length row \<longrightarrow>
           propertyKey S (Some (headers ! i)) \<noteq> propertyKey S (map_option Str (restKey opts))) \<longrightarrow>
      recordOfRow S opts headers row (propertyKey S (Some (headers ! i)))
        = Some (Some (Single (if i < length row then row ! i
                              else (case restVal opts of None \<Rightarrow> Str [] | Some v \<Rightarrow> v)))))
   \<and> recordOfRow S opts headers row =
       (if length headers < length row then
          fromEntries S (zip (map Some headers @ [map_option Str (restKey opts)])
            (map (Some \<circ> Single) (take (length headers) row)
               @ [Some (Rest (drop (length headers) row))]))
        else
          fromEntries S (zip (map Some headers)
            (map (Some \<circ> Single)
               (row @ replicate (length headers - length row)
                  (case restVal opts of None \<Rightarrow> Str [] | Some v \<Rightarrow> v)))))
   \<and> fromEntries S (es @ [(k, v)]) = (fromEntries S es)(propertyKey S k \<mapsto> v)
   \<and> propertyKey S (map_option Str None) = ''undefined''
   \<and> propertyKey S (Some (Str s)) = s"
proof (intro conjI impI)
  show "recordOfRow S opts headers row =
       (if length headers < length row then
          fromEntries S (zip (map Some headers @ [map_option Str (restKey opts)])
            (map (Some \<circ> Single) (take (length headers) row)
               @ [Some (Rest (drop (length headers) row))]))
        else
          fromEntries S (zip (map Some headers)
            (map (Some \<circ> Single)
               (row @ replicate (length headers - length row)
                  (case restVal opts of None \<Rightarrow> Str [] | Some v \<Rightarrow> v)))))"
    by (rule recordOfRow_entries)
  show "fromEntries S (es @ [(k, v)]) = (fromEntries S es)(propertyKey S k \<mapsto> v)"
    by (rule fromEntries_snoc)
  show "recordsOf S opts headers (rows, err)
       = (map (recordOfRow S opts headers) (filter (\<lambda>row. row \<noteq> []) rows), err)"
    by (simp add: recordsOf_def)
  show "propertyKey S (map_option Str None) = ''undefined''" "propertyKey S (Some (Str s)) = s"
    by (simp_all add: propertyKey_def)
next
  assume "opts_fields opts = Some fs \<and> fs \<noteq> []"
  then show "recordReader Number S source opts
        = recordsOf S opts (map Str fs) (reader Number source (opts_dialect opts))"
    by (simp add: recordReader_fields)
next
  assume "opts_fields opts = None \<and> reader Number source (opts_dialect opts) = (h # rows, err)"
  then show "recordReader Number S source opts = recordsOf S opts h (rows, err)"
    by (simp add: recordReader_first_row)
next
  assume "opts_fields opts = None \<and> reader Number source (opts_dialect opts) = ([], err)"
  then show "recordReader Number S source opts = ([], err)"
    by (simp add: recordReader_no_row)
next
  assume l: "length headers < length row"
  show "recordOfRow S opts headers row (propertyKey S (map_option Str (restKey opts)))
        = Some (Some (Rest (drop (length headers) row)))"
    by (rule recordOfRow_rest(1) [OF l])
  show "dom (recordOfRow S opts headers row)
        = insert (propertyKey S (map_option Str (restKey opts)))
            ((\<lambda>h. propertyKey S (Some h)) ` set headers)"
    by (rule recordOfRow_rest(2) [OF l])
next
  assume "length row \<le> length headers"
  then show "dom (recordOfRow S opts headers row) = (\<lambda>h. propertyKey S (Some h)) ` set headers"
    by (rule recordOfRow_short_dom)
next
  assume "distinct (map (\<lambda>h. propertyKey S (Some h)) headers) \<and> i < length headers
      \<and> (length headers < length row \<longrightarrow>
           propertyKey S (Some (headers ! i)) \<noteq> propertyKey S (map_option Str (restKey opts)))"
  then show "recordOfRow S opts headers row (propertyKey S (Some (headers ! i)))
        = Some (Some (Single (if i < length row then row ! i
                              else (case restVal opts of None \<Rightarrow> Str [] | Some v \<Rightarrow> v))))"
    using recordOfRow_header [of S headers i row opts] by blast
qed

theorem C8_recordReader_witness:
  "reader exampleNumber recordsSource None
     = ([[Str ''a'', Str ''b'', Str ''c''],
         [Str ''1'', Str ''2'', Str ''3'', Str ''4'', Str ''5''], [], [Str ''7'', Str ''8'']], None)
   \<and> recordReader exampleNumber exampleNumberToString recordsSource defaultOpts
     = ([recordOfRow exampleNumberToString defaultOpts [Str ''a'', Str ''b'', Str ''c'']
           [Str ''1'', Str ''2'', Str ''3'', Str ''4'', Str ''5''],
         recordOfRow exampleNumberToString defaultOpts [Str ''a'', Str ''b'', Str ''c'']
           [Str ''7'', Str ''8'']], None)
   \<and> recordOfRow exampleNumberToString defaultOpts [Str ''a'', Str ''b'', Str ''c'']
         [Str ''1'', Str ''2'', Str ''3'', Str ''4'', Str ''5''] ''undefined''
     = Some (Some (Rest [Str ''4'', Str ''5'']))
   \<and> recordOfRow exampleNumberToString defaultOpts [Str ''a'', Str ''b'', Str ''c'']
         [Str ''1'', Str ''2'', Str ''3'', Str ''4'', Str ''5''] ''b''
     = Some (Some (Single (Str ''2'')))
   \<and> recordOfRow exampleNumberToString defaultOpts [Str ''a'', Str ''b'', Str ''c'']
         [Str ''7'', Str ''8''] ''b''
     = Some (Some (Single (Str ''8'')))
   \<and> recordOfRow exampleNumberToString defaultOpts [Str ''a'', Str ''b'', Str ''c'']
         [Str ''7'', Str ''8''] ''c''
     = Some (Some (Single (Str [])))
   \<and> dom (recordOfRow exampleNumberToString defaultOpts [Str ''a'', Str ''b'', Str ''c'']
         [Str ''7'', Str ''8'']) = {''a'', ''b'', ''c''}
   \<and> recordReader exampleNumber exampleNumberToString recordsSource
         (defaultOpts\<lparr>opts_fields := Some [''x'', ''y'']\<rparr>)
     = recordsOf exampleNumberToString (defaultOpts\<lparr>opts_fields := Some [''x'', ''y'']\<rparr>)
         [Str ''x'', Str ''y''] (reader exampleNumber recordsSource None)"
proof -
  have rd: "reader exampleNumber recordsSource None
     = ([[Str ''a'', Str ''b'', Str ''c''],
         [Str ''1'', Str ''2'', Str ''3'', Str ''4'', Str ''5''], [], [Str ''7'', Str ''8'']], None)"
    by (simp add: recordsSource_def run_simps)
  let ?hs = "[Str ''a'', Str ''b'', Str ''c''] :: real Row"
  let ?long = "[Str ''1'', Str ''2'', Str ''3'', Str ''4'', Str ''5''] :: real Row"
  let ?short = "[Str ''7'', Str ''8''] :: real Row"
  note g = C8_recordReader [where opts = defaultOpts and Number = exampleNumber
      and S = exampleNumberToString and source = recordsSource and h = ?hs
      and rows = "[?long, [], ?short]" and err = None and headers = ?hs]
  note long = C8_recordReader [where opts = defaultOpts and Number = exampleNumber
      and S = exampleNumberToString and source = recordsSource and headers = ?hs
      and row = ?long and i = 1]
  note short1 = C8_recordReader [where opts = defaultOpts and Number = exampleNumber
      and S = exampleNumberToString and source = recordsSource and headers = ?hs
      and row = ?short and i = 1]
  note short2 = C8_recordReader [where opts = defaultOpts and Number = exampleNumber
      and S = exampleNumberToString and source = recordsSource and headers = ?hs
      and row = ?short and i = 2]
  note fs = C8_recordReader [where opts = "defaultOpts\<lparr>opts_fields := Some [''x'', ''y'']\<rparr>"
      and fs = "[''x'', ''y'']" and Number = exampleNumber and S = exampleNumberToString
      and source = recordsSource]
  have a: "recordReader exampleNumber exampleNumberToString recordsSource defaultOpts
     = ([recordOfRow exampleNumberToString defaultOpts ?hs ?long,
         recordOfRow exampleNumberToString defaultOpts ?hs ?short], None)"
    using g [THEN conjunct2, THEN conjunct1] g [THEN conjunct2, THEN conjunct2, THEN conjunct2, THEN conjunct1] rd
    by (simp add: defaultOpts_def)
  have b: "recordOfRow exampleNumberToString defaultOpts ?hs ?long ''undefined''
     = Some (Some (Rest [Str ''4'', Str ''5'']))"
    "recordOfRow exampleNumberToString defaultOpts ?hs ?long ''b'' = Some (Some (Single (Str ''2'')))"
    using long [THEN conjunct2, THEN conjunct2, THEN conjunct2, THEN conjunct2, THEN conjunct1] long [THEN conjunct2, THEN conjunct2, THEN conjunct2, THEN conjunct2, THEN conjunct2, THEN conjunct2, THEN conjunct1]
    by (simp_all add: defaultOpts_def propertyKey_def)
  have c: "recordOfRow exampleNumberToString defaultOpts ?hs ?short ''b'' = Some (Some (Single (Str ''8'')))"
    "dom (recordOfRow exampleNumberToString defaultOpts ?hs ?short) = {''a'', ''b'', ''c''}"
    using short1 [THEN conjunct2, THEN conjunct2, THEN conjunct2, THEN conjunct2, THEN conjunct2, THEN conjunct1] short1 [THEN conjunct2, THEN conjunct2, THEN conjunct2, THEN conjunct2, THEN conjunct2, THEN conjunct2, THEN conjunct1]
    by (simp_all add: defaultOpts_def propertyKey_def)
  have d: "recordOfRow exampleNumberToString defaultOpts ?hs ?short ''c'' = Some (Some (Single (Str [])))"
    using short2 [THEN conjunct2, THEN conjunct2, THEN conjunct2, THEN conjunct2, THEN conjunct2, THEN conjunct2, THEN conjunct1]
    by (simp add: defaultOpts_def propertyKey_def eval_nat_numeral)
  have e: "recordReader exampleNumber exampleNumberToString recordsSource
         (defaultOpts\<lparr>opts_fields := Some [''x'', ''y'']\<rparr>)
     = recordsOf exampleNumberToString (defaultOpts\<lparr>opts_fields := Some [''x'', ''y'']\<rparr>)
         [Str ''x'', Str ''y''] (reader exampleNumber recordsSource None)"
    using fs [THEN conjunct1] by (simp add: defaultOpts_def)
  from rd a b c d e show ?thesis by simp
qed

end
